theory Spec2Isabelle
  imports Complex_Main "HOL-Library.Multiset"
begin

section \<open>Text normalizer\<close>

text \<open>
  A Python \<open>str\<close> is modelled as a \<open>string\<close>: a list of characters, each one a code
  point below 256. The character classes are those of CPython on that range.
\<close>

text \<open>
  \<open>\s\<close> of \<open>re\<close> on a \<open>str\<close> pattern and \<open>str.strip()\<close> without argument both use
  \<open>Py_UNICODE_ISSPACE\<close>: code points 9 to 13, 28 to 32, 0x85 and 0xA0 (below 256).
\<close>

definition is_space :: "char \<Rightarrow> bool" where
  "is_space c =
     (let n = (of_char c :: nat)
      in (9 \<le> n \<and> n \<le> 13) \<or> (28 \<le> n \<and> n \<le> 32) \<or> n = 133 \<or> n = 160)"

text \<open>The class \<open>[A-Z]\<close>.\<close>

definition is_upper :: "char \<Rightarrow> bool" where
  "is_upper c = (let n = (of_char c :: nat) in 65 \<le> n \<and> n \<le> 90)"

text \<open>
  \<^verbatim>\<open>pattern = r'(?<!\S)(?:[A-Z]\s)+(?:[A-Z])(?!\S)'\<close>

  \<open>final_letter\<close> is the tail \<open>(?:[A-Z])(?!\S)\<close> of the pattern: one upper-case letter
  that is followed by the end of the text or by a whitespace character. It gives the
  number of characters consumed.
\<close>

fun final_letter :: "string \<Rightarrow> nat option" where
  "final_letter [] = None"
| "final_letter [c] = (if is_upper c then Some 1 else None)"
| "final_letter (c # d # cs) = (if is_upper c \<and> is_space d then Some 1 else None)"

text \<open>
  \<open>spaced_tail\<close> is \<open>(?:[A-Z]\s)*(?:[A-Z])(?!\S)\<close> with the backtracking of \<open>re\<close>: the
  greedy repetition first takes one more pair and tries the rest; when that fails it
  gives the pair back and tries the tail of the pattern here.
\<close>

fun spaced_tail :: "string \<Rightarrow> nat option" where
  "spaced_tail (c # d # cs) =
     (if is_upper c \<and> is_space d
      then (case spaced_tail cs of
              Some n \<Rightarrow> Some (n + 2)
            | None \<Rightarrow> final_letter (c # d # cs))
      else final_letter (c # d # cs))"
| "spaced_tail cs = final_letter cs"

text \<open>
  \<open>spaced_match\<close> is \<open>(?:[A-Z]\s)+(?:[A-Z])(?!\S)\<close> tried at the head of the text: at
  least one pair. The result is the length of the match.
\<close>

fun spaced_match :: "string \<Rightarrow> nat option" where
  "spaced_match (c # d # cs) =
     (if is_upper c \<and> is_space d
      then (case spaced_tail cs of Some n \<Rightarrow> Some (n + 2) | None \<Rightarrow> None)
      else None)"
| "spaced_match cs = None"

lemma final_letter_bound:
  "final_letter cs = Some n \<Longrightarrow> n = 1 \<and> n \<le> length cs"
  by (cases cs rule: final_letter.cases) (auto split: if_splits)

lemma spaced_tail_bound:
  "spaced_tail cs = Some n \<Longrightarrow> 1 \<le> n \<and> n \<le> length cs"
  by (induction cs arbitrary: n rule: spaced_tail.induct)
     (auto split: if_splits option.splits dest: final_letter_bound)

lemma spaced_match_bound:
  "spaced_match cs = Some n \<Longrightarrow> 3 \<le> n \<and> n \<le> length cs"
  by (cases cs rule: spaced_match.cases)
     (auto split: if_splits option.splits dest: spaced_tail_bound)

text \<open>
  \<^verbatim>\<open>re.sub(pattern, lambda m: m.group(0).replace(" ", ""), text)\<close>

  \<open>sub_spaced b cs\<close> scans the rest \<open>cs\<close> of the text from left to right; \<open>b\<close> says
  whether the lookbehind \<open>(?<!\S)\<close> holds here, that is, whether the scan is at the
  start of the text or the character before is whitespace. A match is replaced by itself
  without its U+0020 characters and the scan goes on behind it; where nothing matches,
  the character is copied.
\<close>

function sub_spaced :: "bool \<Rightarrow> string \<Rightarrow> string" where
  "sub_spaced b [] = []"
| "sub_spaced b (c # cs) =
     (case (if b then spaced_match (c # cs) else None) of
        Some n \<Rightarrow>
          filter (\<lambda>x. x \<noteq> CHR '' '') (take n (c # cs))
            @ sub_spaced (is_space (last (take n (c # cs)))) (drop n (c # cs))
      | None \<Rightarrow> c # sub_spaced (is_space c) cs)"
  by pat_completeness auto
termination
  by (relation "measure (\<lambda>(b, cs). length cs)")
     (auto split: if_splits dest: spaced_match_bound)

definition remove_spaced_out_words :: "string \<Rightarrow> string" where
  "remove_spaced_out_words text = sub_spaced True text"

text \<open>\<^verbatim>\<open>text.strip()\<close>: whitespace is dropped at the left end and at the right end.\<close>

definition lstrip :: "string \<Rightarrow> string" where
  "lstrip s = dropWhile is_space s"

definition rstrip :: "string \<Rightarrow> string" where
  "rstrip s = rev (dropWhile is_space (rev s))"

definition strip :: "string \<Rightarrow> string" where
  "strip s = rstrip (lstrip s)"

text \<open>\<^verbatim>\<open>re.sub(r'\s+', ' ', text)\<close>: every maximal run of whitespace becomes one space.\<close>

function collapse_ws :: "string \<Rightarrow> string" where
  "collapse_ws [] = []"
| "collapse_ws (c # cs) =
     (if is_space c then CHR '' '' # collapse_ws (dropWhile is_space cs)
      else c # collapse_ws cs)"
  by pat_completeness auto
termination
  by (relation "measure length") (auto simp: less_Suc_eq_le length_dropWhile_le)

definition normalize_text :: "string \<Rightarrow> string" where
  "normalize_text text = collapse_ws (strip (remove_spaced_out_words text))"

text \<open>
  \<^verbatim>\<open>str.splitlines()\<close> ends a line at a line feed, carriage return (with a line
  feed right behind it as one boundary), vertical tab, form feed, the separators 0x1C
  to 0x1E and NEL 0x85; a text that ends with a boundary has no empty last line.
\<close>

definition is_linebreak :: "char \<Rightarrow> bool" where
  "is_linebreak c =
     (let n = (of_char c :: nat)
      in (10 \<le> n \<and> n \<le> 13) \<or> (28 \<le> n \<and> n \<le> 30) \<or> n = 133)"

fun splitlines_from :: "string \<Rightarrow> string \<Rightarrow> string list" where
  "splitlines_from cur [] = (if cur = [] then [] else [cur])"
| "splitlines_from cur [c] = (if is_linebreak c then [cur] else [cur @ [c]])"
| "splitlines_from cur (c # d # cs) =
     (if c = CHR 0x0D \<and> d = CHR 0x0A then cur # splitlines_from [] cs
      else if is_linebreak c then cur # splitlines_from [] (d # cs)
      else splitlines_from (cur @ [c]) (d # cs))"

definition splitlines :: "string \<Rightarrow> string list" where
  "splitlines text = splitlines_from [] text"

text \<open>The loop of \<open>extract_candidate_name\<close> over the lines.\<close>

fun first_stripped_line :: "string list \<Rightarrow> string" where
  "first_stripped_line [] = []"
| "first_stripped_line (line # lines) =
     (let stripped_line = strip line
      in if stripped_line \<noteq> [] then stripped_line else first_stripped_line lines)"

definition extract_candidate_name :: "string \<Rightarrow> string" where
  "extract_candidate_name text = first_stripped_line (splitlines text)"

section \<open>Ranking\<close>

text \<open>
  \<^verbatim>\<open>sorted(xs, key=key, reverse=reverse)\<close>: a stable sort on the keys. With
  \<open>reverse\<close>, CPython reverses the list, sorts it and reverses the result, which keeps
  elements of equal key in their input order. The scores are floating-point numbers;
  they are modelled as rationals, a linear order (no NaN).
\<close>

definition sorted_py :: "('a \<Rightarrow> 'k::linorder) \<Rightarrow> bool \<Rightarrow> 'a list \<Rightarrow> 'a list" where
  "sorted_py key reverse xs =
     (if reverse then rev (sort_key key (rev xs)) else sort_key key xs)"

section \<open>Events, errors and the environment\<close>

text \<open>An exception; \<open>str_of\<close> is Python's \<open>str(e)\<close>, the text the failure sink shows.\<close>

datatype error = ValueError string | OtherException string

fun str_of :: "error \<Rightarrow> string" where
  "str_of (ValueError m) = m"
| "str_of (OtherException m) = m"

text \<open>
  The dictionary built for each resume, with its four keys (\<open>resume_text\<close> is the key
  \<open>"text"\<close>).
\<close>

record resume =
  file_name :: string
  candidate_name :: string
  resume_text :: string
  full_path :: string

text \<open>
  What one run does to the outside, in order: a call of \<open>update_progress\<close>, a line
  printed, the download, saving and loading of the model, a call of \<open>model.encode\<close> (on
  one text or on a batch), and the call of the completion sink
  \<open>update_results_display\<close> or of the failure sink \<open>handle_error\<close>. Progress fractions
  are floating-point numbers in the source and rationals here.
\<close>

datatype event =
    Progress rat string
  | Printed string
  | Download
  | Save
  | LoadFromDisk
  | EncodeText string
  | EncodeBatch "string list"
  | Complete "(resume \<times> rat) list"
  | Failed string

type_synonym callback = "rat \<Rightarrow> string \<Rightarrow> event list"

text \<open>\<^verbatim>\<open>if progress_callback: progress_callback(value, message)\<close>\<close>

definition report :: "callback option \<Rightarrow> rat \<Rightarrow> string \<Rightarrow> event list" where
  "report progress_callback v m =
     (case progress_callback of None \<Rightarrow> [] | Some cb \<Rightarrow> cb v m)"

text \<open>
  The loaded sentence-transformer model: \<open>encode\<close> on one text and on a list of texts.
  Each call may raise.
\<close>

record 'v model =
  encode_text :: "string \<Rightarrow> error + 'v"
  encode_batch :: "string list \<Rightarrow> error + 'v list"

text \<open>
  The collaborators outside the program: the model hub
  (\<open>SentenceTransformer('all-MiniLM-L6-v2')\<close>), \<open>model.save\<close> (which may fail and may
  then leave the model path behind), reading the model back from the model path, the PDF
  extractor \<open>extract_text\<close> and \<open>util.pytorch_cos_sim\<close> (row 0 of its result, as numbers).
\<close>

record 'v host =
  fetch_model :: "error + 'v model"
  save_failure :: "error option"
  save_leaves_path :: bool
  read_failure :: "error option"
  extract_text :: "string \<Rightarrow> error + string"
  pytorch_cos_sim :: "'v \<Rightarrow> 'v list \<Rightarrow> error + rat list"

text \<open>Decimal digits of a natural number, for the f-strings.\<close>

fun str_nat :: "nat \<Rightarrow> string" where
  "str_nat n =
     (if n < 10 then [char_of (48 + n)]
      else str_nat (n div 10) @ [char_of (48 + n mod 10)])"

declare str_nat.simps [simp del]

text \<open>\<open>os.path.basename\<close> on a POSIX path: what follows the last slash.\<close>

definition basename :: "string \<Rightarrow> string" where
  "basename p = rev (takeWhile (\<lambda>c. c \<noteq> CHR ''/'') (rev p))"

section \<open>Model provisioner\<close>

text \<open>
  \<open>load_model\<close>. The second argument is what is stored at the model path
  (\<open>os.path.exists(model_path)\<close> is \<open>disk \<noteq> None\<close>); the third component of the result
  is what is stored there afterwards.
\<close>

definition load_model ::
  "'v host \<Rightarrow> 'v model option \<Rightarrow> callback option
     \<Rightarrow> event list \<times> (error + 'v model) \<times> 'v model option" where
  "load_model host disk progress_callback =
     (case disk of
        None \<Rightarrow>
          (let t1 = report progress_callback 0
                      ''Downloading model for first use. This may take a few minutes...''
                    @ [Download]
           in case fetch_model host of
                Inl e \<Rightarrow> (t1, Inl e, None)
              | Inr model \<Rightarrow>
                  (case save_failure host of
                     Some e \<Rightarrow>
                       (t1 @ [Save], Inl e,
                        if save_leaves_path host then Some model else None)
                   | None \<Rightarrow>
                       (t1 @ [Save]
                          @ report progress_callback 1 ''Model downloaded successfully'',
                        Inr model, Some model)))
      | Some stored \<Rightarrow>
          (let t1 = (case progress_callback of
                       None \<Rightarrow> []
                     | Some cb \<Rightarrow>
                         cb 0 ''Loading model from disk...''
                         @ concat (map (\<lambda>i. cb (of_nat i / 10)
                                     (''Loading model components ('' @ str_nat (i * 10)
                                        @ ''%)...''))
                                   [1..<11]))
                    @ [LoadFromDisk]
           in case read_failure host of
                Some e \<Rightarrow> (t1, Inl e, disk)
              | None \<Rightarrow>
                  (t1 @ report progress_callback 1 ''Model loaded successfully'',
                   Inr stored, disk)))"

section \<open>Matching engine\<close>

text \<open>\<open>rank_resumes\<close>: the events up to the return or the exception, and the result.\<close>

definition rank_resumes ::
  "'v host \<Rightarrow> resume list \<Rightarrow> string \<Rightarrow> 'v model \<Rightarrow> callback option
     \<Rightarrow> event list \<times> (error + (resume \<times> rat) list)" where
  "rank_resumes host resumes job_description model progress_callback =
     (let t1 = report progress_callback 0 ''Encoding job description...''
               @ [EncodeText job_description]
      in case encode_text model job_description of
           Inl e \<Rightarrow> (t1, Inl e)
         | Inr job_embedding \<Rightarrow>
             (let resume_texts = map resume_text resumes;
                  t2 = t1 @ report progress_callback (2 / 10) ''Encoding resumes...''
                       @ [EncodeBatch resume_texts]
              in case encode_batch model resume_texts of
                   Inl e \<Rightarrow> (t2, Inl e)
                 | Inr resume_embeddings \<Rightarrow>
                     (let t3 = t2 @ report progress_callback (7 / 10)
                                      ''Computing similarity scores...''
                      in case pytorch_cos_sim host job_embedding resume_embeddings of
                           Inl e \<Rightarrow> (t3, Inl e)
                         | Inr cosine_scores \<Rightarrow>
                             (let t4 = t3 @ report progress_callback (9 / 10)
                                              ''Ranking resumes...'';
                                  ranked_resumes =
                                    sorted_py snd True (zip resumes cosine_scores)
                              in (t4 @ report progress_callback 1 ''Ranking complete'',
                                  Inr ranked_resumes)))))"

section \<open>Orchestrator\<close>

text \<open>The fields of the window object that the worker reads.\<close>

record gui =
  selected_files :: "string list"
  preloaded_resume_data :: "resume list option"

definition update_progress :: callback where
  "update_progress v m = [Progress v m]"

text \<open>
  The loop over \<open>enumerate(self.selected_files)\<close>, from index \<open>i\<close> on: the events and
  the resumes appended. An exception of the extractor is caught and printed.
\<close>

fun extract_loop ::
  "'v host \<Rightarrow> nat \<Rightarrow> nat \<Rightarrow> string list \<Rightarrow> event list \<times> resume list" where
  "extract_loop host total_files i [] = ([], [])"
| "extract_loop host total_files i (pdf_path # paths) =
     (let p = update_progress (of_nat (i + 1) / of_nat total_files * (1 / 2))
                (''Extracting text ('' @ str_nat (i + 1) @ ''/'' @ str_nat total_files
                   @ ''): '' @ basename pdf_path);
          (t, resumes) = extract_loop host total_files (i + 1) paths
      in case extract_text host pdf_path of
           Inl e \<Rightarrow>
             (p @ [Printed (''Warning: Could not process '' @ basename pdf_path
                             @ '': '' @ str_of e)] @ t,
              resumes)
         | Inr txt \<Rightarrow>
             (let candidate_name = extract_candidate_name txt;
                  normalized_text = normalize_text txt
              in (p @ t,
                  \<lparr>file_name = basename pdf_path,
                   candidate_name =
                     (if candidate_name \<noteq> [] then candidate_name else ''Unknown Name''),
                   resume_text = normalized_text,
                   full_path = pdf_path\<rparr> # resumes)))"

text \<open>The resumes the worker goes on with, and the events of getting them.\<close>

definition gather_resumes :: "'v host \<Rightarrow> gui \<Rightarrow> event list \<times> resume list" where
  "gather_resumes host self =
     (case preloaded_resume_data self of
        Some (r # rs) \<Rightarrow>
          (update_progress (1 / 2) ''Using pre-processed resume data...'', r # rs)
      | _ \<Rightarrow>
          (let total_files = length (selected_files self);
               (t, resumes) = extract_loop host total_files 0 (selected_files self)
           in (update_progress 0 (''Extracting text (0/'' @ str_nat total_files @ '')...'')
                 @ t,
               resumes)))"

definition ranking_progress_callback :: callback where
  "ranking_progress_callback v m = update_progress (1 / 2 + v * (1 / 2)) m"

text \<open>The body of the \<open>try\<close> of \<open>process_resumes_worker\<close>.\<close>

definition worker_body ::
  "'v host \<Rightarrow> gui \<Rightarrow> 'v model option \<Rightarrow> string \<Rightarrow> string
     \<Rightarrow> event list \<times> (error + (resume \<times> rat) list) \<times> 'v model option" where
  "worker_body host self disk role description =
     (case load_model host disk (Some update_progress) of
        (t1, Inl e, disk') \<Rightarrow> (t1, Inl e, disk')
      | (t1, Inr model, disk') \<Rightarrow>
          (let (t2, resumes) = gather_resumes host self
           in if resumes = []
              then (t1 @ t2, Inl (ValueError ''No valid resumes could be processed.''),
                    disk')
              else
                (let full_job_desc =
                       ''Job Role: '' @ role @ [CHR 0x0A, CHR 0x0A] @ description;
                     (t3, r) = rank_resumes host resumes full_job_desc model
                                 (Some ranking_progress_callback)
                 in (t1 @ t2 @ t3, r, disk'))))"

text \<open>
  The two sinks, run on the interface thread. \<open>Complete\<close> and \<open>Failed\<close> mark the call;
  the progress call behind it is the one the sink itself makes
  (\<open>update_results_page\<close>, \<open>handle_error\<close>).
\<close>

definition update_results_display :: "(resume \<times> rat) list \<Rightarrow> event list" where
  "update_results_display ranked_resumes_data =
     Complete ranked_resumes_data
       # update_progress 1
           (if ranked_resumes_data \<noteq> [] then ''Analysis complete.''
            else ''No results found.'')"

definition handle_error :: "string \<Rightarrow> event list" where
  "handle_error error_msg = Failed error_msg # update_progress 0 ''Error occurred.''"

text \<open>
  \<^verbatim>\<open>lambda: self.handle_error(str(e))\<close>, the callback that the \<open>except\<close> clause
  queues with \<open>root.after\<close>. Its argument is what the name \<open>e\<close> is bound to when the
  callback runs: reading an unbound \<open>e\<close> raises \<open>NameError\<close> inside the callback, and
  \<open>handle_error\<close> is not reached.
\<close>

definition failure_callback :: "error option \<Rightarrow> event list" where
  "failure_callback e =
     (case e of None \<Rightarrow> [] | Some x \<Rightarrow> handle_error (str_of x))"

text \<open>
  \<open>process_resumes_worker\<close>: the \<open>try\<close>, and the callback queued for the interface
  thread. The result is kept in the local \<open>ranked_resumes_data\<close>, which the queued
  completion callback reads. The exception is bound by \<open>except Exception as e\<close>, and
  Python unbinds \<open>e\<close> at the end of the \<open>except\<close> clause, before the queued callback
  runs: the callback finds \<open>e\<close> unbound.
\<close>

definition process_resumes_worker ::
  "'v host \<Rightarrow> gui \<Rightarrow> 'v model option \<Rightarrow> string \<Rightarrow> string
     \<Rightarrow> event list \<times> 'v model option" where
  "process_resumes_worker host self disk role description =
     (case worker_body host self disk role description of
        (t, Inr ranked_resumes_data, disk') \<Rightarrow>
          (t @ update_results_display ranked_resumes_data, disk')
      | (t, Inl e, disk') \<Rightarrow> (t @ failure_callback None, disk'))"

text \<open>The fractions of the progress calls of a trace, in order.\<close>

fun fractions :: "event list \<Rightarrow> rat list" where
  "fractions [] = []"
| "fractions (Progress v m # es) = v # fractions es"
| "fractions (e # es) = fractions es"

section \<open>Words of a text\<close>

text \<open>
  Notions used to state what the normalizer computes; they are not part of the program.
  \<open>tokens\<close> are the maximal runs of non-whitespace characters of a text, in order (what
  \<open>str.split()\<close> gives), and \<open>unwords\<close> joins words with single spaces.
\<close>

function tokens :: "string \<Rightarrow> string list" where
  "tokens [] = []"
| "tokens (c # cs) =
     (if is_space c then tokens cs
      else takeWhile (\<lambda>x. \<not> is_space x) (c # cs) # tokens (dropWhile (\<lambda>x. \<not> is_space x) cs))"
  by pat_completeness auto
termination
  by (relation "measure length") (auto simp: less_Suc_eq_le length_dropWhile_le)

fun unwords :: "string list \<Rightarrow> string" where
  "unwords [] = []"
| "unwords [w] = w"
| "unwords (w # v # ws) = w @ CHR '' '' # unwords (v # ws)"

text \<open>Words as \<open>tokens\<close> gives them: not empty and free of whitespace.\<close>

definition good_tokens :: "string list \<Rightarrow> bool" where
  "good_tokens ws \<longleftrightarrow> (\<forall>w\<in>set ws. w \<noteq> [] \<and> (\<forall>c\<in>set w. \<not> is_space c))"

text \<open>
  \<open>despaced b xs ys\<close>: \<open>ys\<close> is \<open>xs\<close> without some of its U+0020 characters, each of them
  standing between two single upper-case letters: the letter before it has the start of
  the text or whitespace before it, and the letter behind it has whitespace or the end of
  the text behind it. \<open>b\<close> says whether \<open>xs\<close> starts the text or follows whitespace.
\<close>

inductive despaced :: "bool \<Rightarrow> string \<Rightarrow> string \<Rightarrow> bool" where
  despaced_Nil: "despaced b [] []"
| despaced_Keep: "despaced (is_space c) xs ys \<Longrightarrow> despaced b (c # xs) (c # ys)"
| despaced_Drop:
    "b \<Longrightarrow> is_upper u \<Longrightarrow> is_upper v \<Longrightarrow> xs = [] \<or> is_space (hd xs)
       \<Longrightarrow> despaced True (v # xs) ys
       \<Longrightarrow> despaced b (u # CHR '' '' # v # xs) (u # ys)"

text \<open>
  A word that is one upper-case letter; the length of the run of such words at the head
  of a list of words; and the list of words in which every run of two or more such words
  is one word.  \<open>settled\<close>: no two such words stand next to each other.
\<close>

fun single_upper :: "string \<Rightarrow> bool" where
  "single_upper [c] = is_upper c"
| "single_upper w = False"

definition run :: "string list \<Rightarrow> nat" where
  "run ws = length (takeWhile single_upper ws)"

function merge_runs :: "string list \<Rightarrow> string list" where
  "merge_runs [] = []"
| "merge_runs (w # ws) =
     (if 2 \<le> run (w # ws)
      then concat (take (run (w # ws)) (w # ws)) # merge_runs (drop (run (w # ws)) (w # ws))
      else w # merge_runs ws)"
  by pat_completeness auto
termination
  by (relation "measure length") auto

definition settled :: "string list \<Rightarrow> bool" where
  "settled ws = successively (\<lambda>a b. \<not> (single_upper a \<and> single_upper b)) ws"

section \<open>Reading a run\<close>

text \<open>
  Notions used to state what a run does; they are not part of the program. The lines
  printed by a trace; the events that are calls of \<open>model.encode\<close>, calls of a sink, and
  downloads.
\<close>

fun printed :: "event list \<Rightarrow> string list" where
  "printed [] = []"
| "printed (Printed m # es) = m # printed es"
| "printed (e # es) = printed es"

fun is_encode :: "event \<Rightarrow> bool" where
  "is_encode (EncodeText s) = True"
| "is_encode (EncodeBatch ts) = True"
| "is_encode e = False"

fun is_sink :: "event \<Rightarrow> bool" where
  "is_sink (Complete r) = True"
| "is_sink (Failed m) = True"
| "is_sink e = False"

fun is_download :: "event \<Rightarrow> bool" where
  "is_download Download = True"
| "is_download e = False"

text \<open>
  The dictionary the extraction loop appends for a path and its extracted text; the
  paths whose extraction returns, with their texts, in input order; the warning lines
  for the paths whose extraction raises; and those paths.
\<close>

definition build_resume :: "string \<Rightarrow> string \<Rightarrow> resume" where
  "build_resume pdf_path txt =
     \<lparr>file_name = basename pdf_path,
      candidate_name =
        (if extract_candidate_name txt \<noteq> [] then extract_candidate_name txt
         else ''Unknown Name''),
      resume_text = normalize_text txt,
      full_path = pdf_path\<rparr>"

definition extracted :: "'v host \<Rightarrow> string list \<Rightarrow> (string \<times> string) list" where
  "extracted host paths =
     concat (map (\<lambda>p. case extract_text host p of Inl e \<Rightarrow> [] | Inr txt \<Rightarrow> [(p, txt)]) paths)"



text \<open>\<^verbatim>\<open>full_job_desc = f"Job Role: {role}\n\n{description}"\<close>\<close>

definition full_job_desc :: "string \<Rightarrow> string \<Rightarrow> string" where
  "full_job_desc role description = ''Job Role: '' @ role @ [CHR 0x0A, CHR 0x0A] @ description"


section \<open>Sample inputs\<close>

text \<open>
  A model whose embedding of a text is its length, and a host on which the hub, the disk
  and the similarity work, the extractor fails on two paths and finds no text in a
  third.
\<close>

definition sample_model :: "nat model" where
  "sample_model =
     \<lparr>encode_text = (\<lambda>s. Inr (length s)), encode_batch = (\<lambda>ss. Inr (map length ss))\<rparr>"

definition sample_host :: "nat host" where
  "sample_host =
     \<lparr>fetch_model = Inr sample_model, save_failure = None, save_leaves_path = False,
      read_failure = None,
      extract_text =
        (\<lambda>p. if p = ''/cv/bad.pdf'' \<or> p = ''/cv/locked.pdf''
             then Inl (OtherException ''cannot open'')
             else if p = ''/cv/scan.pdf'' then Inr []
             else Inr (''J O H N Smith '' @ p)),
      pytorch_cos_sim = (\<lambda>j es. Inr (map (\<lambda>e. of_nat e / 100) es))\<rparr>"


definition folder_of_failures :: gui where
  "folder_of_failures =
     \<lparr>selected_files = [''/cv/bad.pdf'', ''/cv/locked.pdf''],
      preloaded_resume_data = None\<rparr>"

definition folder_of_scan :: gui where
  "folder_of_scan =
     \<lparr>selected_files = [''/cv/scan.pdf''], preloaded_resume_data = None\<rparr>"

definition sample_resume :: "string \<Rightarrow> string \<Rightarrow> resume" where
  "sample_resume n t =
     \<lparr>file_name = n @ ''.pdf'', candidate_name = n, resume_text = t,
      full_path = ''/cv/'' @ n @ ''.pdf''\<rparr>"

section \<open>Ranking is a stable sort by descending score\<close>

lemma sorted_py_desc: "sorted_wrt (\<lambda>a b. key b \<le> key a) (sorted_py key True xs)"
proof -
  have "sorted (map key (sort_key key (rev xs)))"
    by (rule sorted_sort_key)
  then have "sorted_wrt (\<lambda>a b. key a \<le> key b) (sort_key key (rev xs))"
    by (simp add: sorted_map)
  then show ?thesis
    by (simp add: sorted_py_def sorted_wrt_rev)
qed

lemma sorted_py_stable:
  "filter (\<lambda>p. key p = k) (sorted_py key True xs) = filter (\<lambda>p. key p = k) xs"
proof -
  have "filter (\<lambda>p. key p = k) (sort_key key (rev xs)) = filter (\<lambda>p. key p = k) (rev xs)"
    by (rule sort_key_stable)
  then show ?thesis
    by (simp add: sorted_py_def rev_filter [symmetric])
qed

lemma sorted_py_mset: "mset (sorted_py key reverse xs) = mset xs"
  by (simp add: sorted_py_def)

lemma sorted_py_length: "length (sorted_py key reverse xs) = length xs"
  by (simp add: sorted_py_def)

lemma sorted_py_set: "set (sorted_py key reverse xs) = set xs"
  by (simp add: sorted_py_def)

text \<open>What \<open>rank_resumes\<close> returns when it returns.\<close>

lemma rank_resumes_Inr:
  assumes "rank_resumes host resumes jd model cb = (t, Inr ranked)"
  shows "\<exists>j es scores. encode_text model jd = Inr j
           \<and> encode_batch model (map resume_text resumes) = Inr es
           \<and> pytorch_cos_sim host j es = Inr scores
           \<and> ranked = sorted_py snd True (zip resumes scores)"
  using assms
  by (auto simp: rank_resumes_def Let_def split: sum.splits)

text \<open>
  C7. The ranking step \<open>sorted(zip(...), key=lambda x: x[1], reverse=True)\<close> orders every
  scored sequence by score from highest to lowest, keeps entries of equal score in their
  input order (for each score, the entries with that score are the same sequence before
  and after), and neither drops nor duplicates an entry (same multiset, same length).
  On \<open>[(A,0.5714), (B,0.9), (C,0.5714)]\<close> it gives \<open>[(B,0.9), (A,0.5714), (C,0.5714)]\<close>.
  Whatever \<open>rank_resumes\<close> returns is ordered in this way.
\<close>

theorem ranking_sorted_stable:
  fixes scored :: "('a \<times> rat) list" and A B C :: 'a
  shows "sorted_wrt (\<lambda>a b. snd b \<le> snd a) (sorted_py snd True scored)
    \<and> (\<forall>k. filter (\<lambda>p. snd p = k) (sorted_py snd True scored)
             = filter (\<lambda>p. snd p = k) scored)
    \<and> mset (sorted_py snd True scored) = mset scored
    \<and> length (sorted_py snd True scored) = length scored
    \<and> sorted_py snd True [(A, 5714 / 10000 :: rat), (B, 9 / 10), (C, 5714 / 10000)]
        = [(B, 9 / 10), (A, 5714 / 10000), (C, 5714 / 10000)]
    \<and> (snd (rank_resumes host resumes jd model cb) = Inr ranked
         \<longrightarrow> sorted_wrt (\<lambda>a b. snd b \<le> snd a) ranked)"
proof -
  have "sorted_wrt (\<lambda>a b. snd b \<le> snd a) ranked"
    if "snd (rank_resumes host resumes jd model cb) = Inr ranked"
  proof -
    from that obtain t where "rank_resumes host resumes jd model cb = (t, Inr ranked)"
      by (cases "rank_resumes host resumes jd model cb") simp
    from rank_resumes_Inr [OF this] show ?thesis
      by (auto simp: sorted_py_desc)
  qed
  then show ?thesis
    using sorted_py_desc [of snd scored] sorted_py_stable [of snd _ scored]
    by (simp add: sorted_py_mset sorted_py_length) (simp add: sorted_py_def)
qed

theorem ranking_sorted_stable_witness:
  "snd (rank_resumes sample_host
          [sample_resume ''ann'' ''Python'', sample_resume ''bob'' ''Python and SQL'']
          ''Job'' sample_model None)
     = Inr [(sample_resume ''bob'' ''Python and SQL'', 14 / 100),
            (sample_resume ''ann'' ''Python'', 6 / 100)]
   \<and> sorted_wrt (\<lambda>a b. snd b \<le> snd a)
        [(sample_resume ''bob'' ''Python and SQL'', 14 / 100 :: rat),
         (sample_resume ''ann'' ''Python'', 6 / 100)]"
proof -
  have h: "snd (rank_resumes sample_host
                  [sample_resume ''ann'' ''Python'', sample_resume ''bob'' ''Python and SQL'']
                  ''Job'' sample_model None)
     = Inr [(sample_resume ''bob'' ''Python and SQL'', 14 / 100),
            (sample_resume ''ann'' ''Python'', 6 / 100)]"
    by (simp add: rank_resumes_def sample_host_def sample_model_def sample_resume_def
                  report_def sorted_py_def)
  from h ranking_sorted_stable
         [where host = sample_host and model = sample_model and jd = "''Job''"
            and cb = None
            and resumes = "[sample_resume ''ann'' ''Python'',
                            sample_resume ''bob'' ''Python and SQL'']"
            and ranked = "[(sample_resume ''bob'' ''Python and SQL'', 14 / 100),
                           (sample_resume ''ann'' ''Python'', 6 / 100)]"]
  show ?thesis by simp
qed

section \<open>Whitespace collapse\<close>

lemma rstrip_Cons:
  "rstrip (c # cs) = (if \<forall>x\<in>set (c # cs). is_space x then [] else c # rstrip cs)"
  by (auto simp: rstrip_def dropWhile_append)

lemma rstrip_Nil [simp]: "rstrip [] = []"
  by (simp add: rstrip_def)

lemma rstrip_all_space: "\<forall>x\<in>set s. is_space x \<Longrightarrow> rstrip s = []"
  by (simp add: rstrip_def)

lemma rstrip_eq_Nil: "rstrip s = [] \<longleftrightarrow> (\<forall>x\<in>set s. is_space x)"
  by (auto simp: rstrip_def dropWhile_eq_Nil_conv)

lemma dropWhile_all: "\<forall>x\<in>set s. P x \<Longrightarrow> dropWhile P s = []"
  by simp

lemma lstrip_rstrip: "lstrip (rstrip s) = rstrip (lstrip s)"
proof (induction s)
  case Nil
  show ?case by (simp add: lstrip_def)
next
  case (Cons c cs)
  show ?case
  proof (cases "\<forall>x\<in>set (c # cs). is_space x")
    case True
    then have l: "lstrip (c # cs) = []"
      unfolding lstrip_def by (intro dropWhile_all)
    have r: "rstrip (c # cs) = []"
      using True by (rule rstrip_all_space)
    show ?thesis
      unfolding l r by (simp add: lstrip_def)
  next
    case False
    show ?thesis
    proof (cases "is_space c")
      case True
      have "rstrip (c # cs) = c # rstrip cs"
        using False by (simp add: rstrip_Cons)
      then show ?thesis
        using True Cons by (simp add: lstrip_def)
    next
      case nc: False
      then show ?thesis by (simp add: rstrip_Cons lstrip_def)
    qed
  qed
qed

lemma rstrip_nonspace_prefix:
  "\<forall>x\<in>set w. \<not> is_space x \<Longrightarrow> rstrip (w @ s) = w @ rstrip s"
  by (induction w) (auto simp: rstrip_Cons)

lemma collapse_nonspace_prefix:
  "\<forall>x\<in>set w. \<not> is_space x \<Longrightarrow> collapse_ws (w @ s) = w @ collapse_ws s"
  by (induction w) auto

lemma tokens_eq_Nil: "tokens s = [] \<longleftrightarrow> (\<forall>x\<in>set s. is_space x)"
  by (induction s rule: tokens.induct) auto

lemma unwords_Cons: "unwords (w # ws) = (if ws = [] then w else w @ CHR '' '' # unwords ws)"
  by (cases ws) auto

lemma strip_space_Cons: "is_space c \<Longrightarrow> strip (c # cs) = strip cs"
  by (simp add: strip_def lstrip_def)

lemma collapse_strip_tokens: "collapse_ws (strip s) = unwords (tokens s)"
proof (induction s rule: tokens.induct)
  case 1
  show ?case by (simp add: strip_def lstrip_def)
next
  case (2 c cs)
  show ?case
  proof (cases "is_space c")
    case True
    with 2 show ?thesis by (simp add: strip_space_Cons)
  next
    case False
    define w where "w = takeWhile (\<lambda>x. \<not> is_space x) (c # cs)"
    define rest where "rest = dropWhile (\<lambda>x. \<not> is_space x) cs"
    have decomp: "c # cs = w @ rest"
      using False by (simp add: w_def rest_def)
    have w: "\<forall>x\<in>set w. \<not> is_space x"
      unfolding w_def by (auto dest: set_takeWhileD)
    have IH: "collapse_ws (strip rest) = unwords (tokens rest)"
      using 2(2) False by (simp add: rest_def)
    have tok: "tokens (c # cs) = w # tokens rest"
      using False by (simp add: w_def rest_def)
    have "strip (c # cs) = rstrip (c # cs)"
      using False by (simp add: strip_def lstrip_def)
    then have st: "strip (c # cs) = w @ rstrip rest"
      using rstrip_nonspace_prefix [OF w, of rest] by (simp add: decomp)
    show ?thesis
    proof (cases "\<forall>x\<in>set rest. is_space x")
      case True
      have s1: "strip (c # cs) = w"
        using True by (simp add: st rstrip_all_space)
      have s2: "collapse_ws w = w"
        using collapse_nonspace_prefix [OF w, of "[]"] by simp
      have s3: "tokens rest = []"
        using True by (simp add: tokens_eq_Nil)
      show ?thesis
        unfolding s1 s2 tok s3 by simp
    next
      case ns: False
      then obtain d rest' where rest: "rest = d # rest'" by (cases rest) auto
      have d: "is_space d"
        using rest hd_dropWhile [of "\<lambda>x. \<not> is_space x" cs] by (simp add: rest_def)
      have "collapse_ws (rstrip rest) = CHR '' '' # collapse_ws (lstrip (rstrip rest'))"
        using ns d by (simp add: rest rstrip_Cons lstrip_def)
      also have "lstrip (rstrip rest') = strip rest"
        using d by (simp add: lstrip_rstrip strip_def rest strip_space_Cons [unfolded strip_def])
      finally have "collapse_ws (rstrip rest) = CHR '' '' # unwords (tokens rest)"
        using IH by simp
      then have s4: "collapse_ws (strip (c # cs)) = w @ CHR '' '' # unwords (tokens rest)"
        using collapse_nonspace_prefix [OF w, of "rstrip rest"] by (simp add: st)
      have s5: "tokens rest \<noteq> []"
        using ns by (simp add: tokens_eq_Nil)
      show ?thesis
        unfolding s4 tok using s5 by (simp add: unwords_Cons)
    qed
  qed
qed

lemma is_space_blank [simp]: "is_space (CHR '' '')"
  by (simp add: is_space_def)

lemma good_tokens_Cons:
  "good_tokens (w # ws) \<longleftrightarrow> w \<noteq> [] \<and> (\<forall>c\<in>set w. \<not> is_space c) \<and> good_tokens ws"
  by (auto simp: good_tokens_def)

lemma good_tokens_Nil [simp]: "good_tokens []"
  by (simp add: good_tokens_def)

lemma good_tokens_tokens: "good_tokens (tokens s)"
proof (induction s rule: tokens.induct)
  case 1
  show ?case by simp
next
  case (2 c cs)
  show ?case
  proof (cases "is_space c")
    case True
    with 2 show ?thesis by simp
  next
    case False
    have "\<forall>x\<in>set (takeWhile (\<lambda>x. \<not> is_space x) cs). \<not> is_space x"
      by (auto dest: set_takeWhileD)
    with False 2(2) show ?thesis
      by (simp add: good_tokens_Cons)
  qed
qed

lemma unwords_eq_Nil: "good_tokens ws \<Longrightarrow> unwords ws = [] \<longleftrightarrow> ws = []"
  by (cases ws) (auto simp: unwords_Cons good_tokens_Cons)

lemma hd_unwords: "good_tokens (w # ws) \<Longrightarrow> hd (unwords (w # ws)) = hd w"
  by (auto simp: unwords_Cons good_tokens_Cons)

lemma last_unwords:
  "good_tokens ws \<Longrightarrow> ws \<noteq> [] \<Longrightarrow> last (unwords ws) = last (last ws)"
  by (induction ws rule: unwords.induct) (auto simp: good_tokens_Cons unwords_eq_Nil)

lemma set_unwords:
  "set (unwords ws) \<subseteq> insert (CHR '' '') (\<Union>w\<in>set ws. set w)"
  by (induction ws rule: unwords.induct) auto

lemma successively_nonspace:
  "\<forall>c\<in>set w. \<not> is_space c \<Longrightarrow> successively (\<lambda>a b. is_space a \<longrightarrow> \<not> is_space b) w"
  by (induction w rule: induct_list012) auto

lemma successively_unwords:
  "good_tokens ws \<Longrightarrow> successively (\<lambda>a b. is_space a \<longrightarrow> \<not> is_space b) (unwords ws)"
proof (induction ws rule: unwords.induct)
  case 1
  show ?case by simp
next
  case (2 w)
  then show ?case by (simp add: good_tokens_Cons successively_nonspace)
next
  case (3 w v ws)
  then have w: "w \<noteq> []" "\<forall>c\<in>set w. \<not> is_space c" and v: "v \<noteq> []" "\<forall>c\<in>set v. \<not> is_space c"
    and IH: "successively (\<lambda>a b. is_space a \<longrightarrow> \<not> is_space b) (unwords (v # ws))"
    by (simp_all add: good_tokens_Cons)
  have hd: "\<not> is_space (hd (unwords (v # ws)))"
    using 3(2) v hd_unwords [of v ws] by (simp add: good_tokens_Cons)
  have ne: "unwords (v # ws) \<noteq> []"
    using v by (simp add: unwords_Cons)
  have "successively (\<lambda>a b. is_space a \<longrightarrow> \<not> is_space b) (CHR '' '' # unwords (v # ws))"
    using IH hd ne by (cases "unwords (v # ws)") auto
  then show ?case
    using w successively_nonspace [OF w(2)]
    by (simp add: successively_append_iff)
qed

lemma tokens_nonspace_prefix:
  assumes "w \<noteq> []" "\<forall>c\<in>set w. \<not> is_space c" "s = [] \<or> is_space (hd s)"
  shows "tokens (w @ s) = w # tokens s"
proof -
  obtain c w' where w: "w = c # w'" using assms(1) by (cases w) auto
  have t: "takeWhile (\<lambda>x. \<not> is_space x) (w @ s) = w"
    using assms(2,3) by (cases s) (auto simp: takeWhile_append2)
  have d: "dropWhile (\<lambda>x. \<not> is_space x) (w' @ s) = s"
    using assms(2,3) w by (cases s) (auto simp: dropWhile_append2)
  have "tokens (w @ s) = takeWhile (\<lambda>x. \<not> is_space x) (w @ s) # tokens (dropWhile (\<lambda>x. \<not> is_space x) (w' @ s))"
    using assms(2) w by simp
  then show ?thesis by (simp only: t d)
qed

lemma tokens_unwords: "good_tokens ws \<Longrightarrow> tokens (unwords ws) = ws"
proof (induction ws rule: unwords.induct)
  case 1
  show ?case by simp
next
  case (2 w)
  then show ?case
    using tokens_nonspace_prefix [of w "[]"] by (simp add: good_tokens_Cons)
next
  case (3 w v ws)
  then have "tokens (w @ CHR '' '' # unwords (v # ws)) = w # tokens (CHR '' '' # unwords (v # ws))"
    by (intro tokens_nonspace_prefix) (simp_all add: good_tokens_Cons)
  with 3 show ?case by (simp add: good_tokens_Cons)
qed

lemma filter_sub_spaced:
  "filter (\<lambda>x. x \<noteq> CHR '' '') (sub_spaced b cs) = filter (\<lambda>x. x \<noteq> CHR '' '') cs"
proof (induction b cs rule: sub_spaced.induct)
  case (1 b)
  show ?case by simp
next
  case (2 b c cs)
  show ?case
  proof (cases "if b then spaced_match (c # cs) else None")
    case None
    with 2(1) [OF None] show ?thesis by auto
  next
    case (Some n)
    have e: "filter P (take n xs) @ filter P (drop n xs) = filter P xs" for P and xs :: string
      by (simp add: filter_append [symmetric])
    have step: "sub_spaced b (c # cs) =
            filter (\<lambda>x. x \<noteq> CHR '' '') (take n (c # cs))
              @ sub_spaced (is_space (last (take n (c # cs)))) (drop n (c # cs))"
      using Some by simp
    have "filter (\<lambda>x. x \<noteq> CHR '' '') (sub_spaced b (c # cs)) =
            filter (\<lambda>x. x \<noteq> CHR '' '') (take n (c # cs))
              @ filter (\<lambda>x. x \<noteq> CHR '' '') (drop n (c # cs))"
      unfolding step by (simp add: 2(2) [OF Some])
    also have "\<dots> = filter (\<lambda>x. x \<noteq> CHR '' '') (c # cs)"
      by (rule e)
    finally show ?thesis .
  qed
qed

text \<open>
  C9. For every input, \<open>normalize_text\<close> gives the words of the de-spaced text joined by
  single spaces: the result neither starts nor ends with whitespace, its only whitespace
  character is the ASCII space, and no two whitespace characters are adjacent; newlines
  and tabs count as whitespace. \<open>"  Hello\n\n  World  "\<close> becomes \<open>"Hello World"\<close>, and
  the empty text gives the empty text (the model is total: nothing is raised).
\<close>

theorem normalize_text_collapses:
  "normalize_text x = unwords (tokens (remove_spaced_out_words x))
   \<and> (normalize_text x \<noteq> [] \<longrightarrow>
        \<not> is_space (hd (normalize_text x)) \<and> \<not> is_space (last (normalize_text x)))
   \<and> (\<forall>c\<in>set (normalize_text x). is_space c \<longrightarrow> c = CHR '' '')
   \<and> (\<forall>i. Suc i < length (normalize_text x) \<longrightarrow>
          \<not> (is_space (normalize_text x ! i) \<and> is_space (normalize_text x ! Suc i)))
   \<and> normalize_text (''  Hello'' @ [CHR 0x0A, CHR 0x0A] @ ''  World  '') = ''Hello World''
   \<and> normalize_text [] = []"
proof -
  define ws where "ws = tokens (remove_spaced_out_words x)"
  have g: "good_tokens ws" by (simp add: ws_def good_tokens_tokens)
  have n: "normalize_text x = unwords ws"
    by (simp add: normalize_text_def ws_def collapse_strip_tokens)
  have ends: "\<not> is_space (hd (unwords ws)) \<and> \<not> is_space (last (unwords ws))" if "unwords ws \<noteq> []"
  proof -
    from that g obtain w ws' where w: "ws = w # ws'" by (cases ws) auto
    have "hd w \<in> set w" "last (last ws) \<in> set (last ws)" "last ws \<in> set ws"
      using g w by (auto simp: good_tokens_def)
    then show ?thesis
      using g w hd_unwords [of w ws'] last_unwords [of ws]
      by (auto simp: good_tokens_def)
  qed
  have blank: "\<forall>c\<in>set (unwords ws). is_space c \<longrightarrow> c = CHR '' ''"
    using set_unwords [of ws] g by (auto simp: good_tokens_def)
  have adj: "\<forall>i. Suc i < length (unwords ws) \<longrightarrow>
          \<not> (is_space (unwords ws ! i) \<and> is_space (unwords ws ! Suc i))"
    using successively_unwords [OF g] by (simp add: successively_conv_nth)
  have ex: "normalize_text (''  Hello'' @ [CHR 0x0A, CHR 0x0A] @ ''  World  '') = ''Hello World''"
    by (simp add: normalize_text_def remove_spaced_out_words_def strip_def lstrip_def rstrip_def is_space_def is_upper_def)
  have e0: "normalize_text [] = []"
    by (simp add: normalize_text_def remove_spaced_out_words_def strip_def lstrip_def rstrip_def)
  show ?thesis
    unfolding n using ends blank adj ex e0 by (simp add: ws_def)
qed

theorem normalize_text_collapses_witness:
  "normalize_text (''  Hello'' @ [CHR 0x0A, CHR 0x0A] @ ''  World  '') \<noteq> []
   \<and> \<not> is_space (hd (normalize_text (''  Hello'' @ [CHR 0x0A, CHR 0x0A] @ ''  World  '')))
   \<and> \<not> is_space (last (normalize_text (''  Hello'' @ [CHR 0x0A, CHR 0x0A] @ ''  World  '')))
   \<and> CHR '' '' \<in> set (normalize_text (''  Hello'' @ [CHR 0x0A, CHR 0x0A] @ ''  World  ''))
   \<and> is_space (CHR '' '')
   \<and> Suc 4 < length (normalize_text (''  Hello'' @ [CHR 0x0A, CHR 0x0A] @ ''  World  ''))
   \<and> \<not> (is_space (normalize_text (''  Hello'' @ [CHR 0x0A, CHR 0x0A] @ ''  World  '') ! 4)
         \<and> is_space (normalize_text (''  Hello'' @ [CHR 0x0A, CHR 0x0A] @ ''  World  '') ! Suc 4))"
proof -
  let ?t = "normalize_text (''  Hello'' @ [CHR 0x0A, CHR 0x0A] @ ''  World  '')"
  have e: "?t = ''Hello World''"
    by (simp add: normalize_text_def remove_spaced_out_words_def strip_def lstrip_def
                  rstrip_def is_space_def is_upper_def)
  note t = normalize_text_collapses [of "''  Hello'' @ [CHR 0x0A, CHR 0x0A] @ ''  World  ''"]
  from t have a: "?t \<noteq> [] \<longrightarrow> \<not> is_space (hd ?t) \<and> \<not> is_space (last ?t)"
    by (rule conjunct1 [OF conjunct2])
  from t have b: "\<forall>c\<in>set ?t. is_space c \<longrightarrow> c = CHR '' ''"
    by (rule conjunct1 [OF conjunct2 [OF conjunct2]])
  from t have c: "\<forall>i. Suc i < length ?t \<longrightarrow> \<not> (is_space (?t ! i) \<and> is_space (?t ! Suc i))"
    by (rule conjunct1 [OF conjunct2 [OF conjunct2 [OF conjunct2]]])
  from a b c [rule_format, of 4] show ?thesis
    unfolding e by simp
qed

section \<open>De-spacing\<close>

lemma upper_not_blank: "is_upper c \<Longrightarrow> c \<noteq> CHR '' ''"
  by (auto simp: is_upper_def)

lemma final_letter_Some:
  "final_letter xs = Some n \<Longrightarrow>
     n = 1 \<and> xs \<noteq> [] \<and> is_upper (hd xs) \<and> (tl xs = [] \<or> is_space (hd (tl xs)))"
  by (cases xs rule: final_letter.cases) (auto split: if_splits)

lemma spaced_tail_despaced:
  "spaced_tail xs = Some n
     \<Longrightarrow> despaced (is_space (last (take n xs))) (drop n xs) out
     \<Longrightarrow> despaced True xs (filter (\<lambda>x. x \<noteq> CHR '' '') (take n xs) @ out)
         \<and> xs \<noteq> [] \<and> is_upper (hd xs) \<and> (tl xs = [] \<or> is_space (hd (tl xs)))"
proof (induction xs arbitrary: n rule: spaced_tail.induct)
  case (1 c d cs)
  show ?case
  proof (cases "is_upper c \<and> is_space d")
    case pair: True
    show ?thesis
    proof (cases "spaced_tail cs")
      case None
      with pair 1(2) have "final_letter (c # d # cs) = Some n" by simp
      from final_letter_Some [OF this] have n: "n = 1" by simp
      with 1(3) pair show ?thesis
        by (auto simp: upper_not_blank intro: despaced_Keep)
    next
      case (Some m)
      with pair 1(2) have n: "n = m + 2" by simp
      from spaced_tail_bound [OF Some] have m: "1 \<le> m" "m \<le> length cs" by simp_all
      then have "take m cs \<noteq> []" by (cases cs) auto
      with 1(3) have "despaced (is_space (last (take m cs))) (drop m cs) out"
        by (simp add: n)
      from 1(1) [OF pair Some this]
      have IH: "despaced True cs (filter (\<lambda>x. x \<noteq> CHR '' '') (take m cs) @ out)"
        and cs: "cs \<noteq> []" "is_upper (hd cs)" "tl cs = [] \<or> is_space (hd (tl cs))"
        by simp_all
      obtain v cs' where v: "cs = v # cs'" using cs by (cases cs) auto
      show ?thesis
      proof (cases "d = CHR '' ''")
        case True
        have "despaced True (c # CHR '' '' # v # cs')
                (c # filter (\<lambda>x. x \<noteq> CHR '' '') (take m cs) @ out)"
          using pair cs IH v by (intro despaced_Drop) simp_all
        then show ?thesis
          using pair True by (simp add: n v upper_not_blank)
      next
        case False
        have "despaced (is_space d) cs (filter (\<lambda>x. x \<noteq> CHR '' '') (take m cs) @ out)"
          using IH pair by simp
        then have "despaced (is_space c) (d # cs)
                (d # filter (\<lambda>x. x \<noteq> CHR '' '') (take m cs) @ out)"
          by (rule despaced_Keep)
        then have "despaced True (c # d # cs)
                (c # d # filter (\<lambda>x. x \<noteq> CHR '' '') (take m cs) @ out)"
          by (rule despaced_Keep)
        then show ?thesis
          using pair False by (simp add: n upper_not_blank)
      qed
    qed
  next
    case False
    with 1(2) have "final_letter (c # d # cs) = Some n" by simp
    from final_letter_Some [OF this] have n: "n = 1" and c: "is_upper c" "is_space d"
      by simp_all
    with 1(3) show ?thesis
      by (auto simp: upper_not_blank intro: despaced_Keep)
  qed
qed (auto split: if_splits simp: upper_not_blank intro: despaced_Keep)

lemma spaced_match_despaced:
  assumes "spaced_match xs = Some n"
    and "despaced (is_space (last (take n xs))) (drop n xs) out"
  shows "despaced True xs (filter (\<lambda>x. x \<noteq> CHR '' '') (take n xs) @ out)"
proof (cases xs rule: spaced_match.cases)
  case (1 c d cs)
  with assms(1) have pair: "is_upper c" "is_space d"
    by (auto split: if_splits)
  with assms(1) 1 obtain m where m: "spaced_tail cs = Some m" and n: "n = m + 2"
    by (auto split: option.splits)
  from spaced_tail_bound [OF m] have "1 \<le> m" "m \<le> length cs" by simp_all
  then have "take m cs \<noteq> []" by (cases cs) auto
  with assms(2) have "despaced (is_space (last (take m cs))) (drop m cs) out"
    by (simp add: 1 n)
  from spaced_tail_despaced [OF m this]
  have IH: "despaced True cs (filter (\<lambda>x. x \<noteq> CHR '' '') (take m cs) @ out)"
    and cs: "cs \<noteq> []" "is_upper (hd cs)" "tl cs = [] \<or> is_space (hd (tl cs))"
    by simp_all
  obtain v cs' where v: "cs = v # cs'" using cs by (cases cs) auto
  show ?thesis
  proof (cases "d = CHR '' ''")
    case True
    have "despaced True (c # CHR '' '' # v # cs')
            (c # filter (\<lambda>x. x \<noteq> CHR '' '') (take m cs) @ out)"
      using pair cs IH v by (intro despaced_Drop) simp_all
    then show ?thesis
      using pair True by (simp add: 1 n v upper_not_blank)
  next
    case False
    have "despaced (is_space d) cs (filter (\<lambda>x. x \<noteq> CHR '' '') (take m cs) @ out)"
      using IH pair by simp
    then have "despaced (is_space c) (d # cs)
            (d # filter (\<lambda>x. x \<noteq> CHR '' '') (take m cs) @ out)"
      by (rule despaced_Keep)
    then have "despaced True (c # d # cs)
            (c # d # filter (\<lambda>x. x \<noteq> CHR '' '') (take m cs) @ out)"
      by (rule despaced_Keep)
    then show ?thesis
      using pair False by (simp add: 1 n upper_not_blank)
  qed
qed (use assms in auto)

lemma spaced_match_upper: "spaced_match xs = Some n \<Longrightarrow> xs \<noteq> [] \<and> is_upper (hd xs)"
  by (cases xs rule: spaced_match.cases) (auto split: if_splits)

lemma despaced_sub_spaced: "despaced b cs (sub_spaced b cs)"
proof (induction b cs rule: sub_spaced.induct)
  case (1 b)
  show ?case by (simp add: despaced_Nil)
next
  case (2 b c cs)
  show ?case
  proof (cases "if b then spaced_match (c # cs) else None")
    case None
    with 2(1) [OF None] show ?thesis by (simp add: despaced_Keep)
  next
    case (Some n)
    then have m: "spaced_match (c # cs) = Some n" and b: "b" by (simp_all split: if_splits)
    have step: "sub_spaced b (c # cs) =
            filter (\<lambda>x. x \<noteq> CHR '' '') (take n (c # cs))
              @ sub_spaced (is_space (last (take n (c # cs)))) (drop n (c # cs))"
      using Some by simp
    show ?thesis
      unfolding step using spaced_match_despaced [OF m 2(2) [OF Some]] b by simp
  qed
qed

lemma sub_spaced_no_upper: "\<forall>c\<in>set cs. \<not> is_upper c \<Longrightarrow> sub_spaced b cs = cs"
proof (induction b cs rule: sub_spaced.induct)
  case (1 b)
  show ?case by simp
next
  case (2 b c cs)
  have "spaced_match (c # cs) = None"
  proof (cases "spaced_match (c # cs)")
    case (Some n)
    from spaced_match_upper [OF this] 2(3) show ?thesis by simp
  qed simp
  then have None: "(if b then spaced_match (c # cs) else None) = None" by simp
  with 2(1) [OF None] 2(3) show ?case by simp
qed

text \<open>
  C8. De-spacing deletes nothing but U+0020 characters (every other character, so
  every lower-case letter, digit and punctuation mark, stays where it is), each deleted
  space stands between two single upper-case letters of a run, and a text without
  upper-case letters is left as it is. \<open>normalize("J O H N Smith") = "JOHN Smith"\<close>,
  \<open>normalize("A B C 1 2 3") = "ABC 1 2 3"\<close> and \<open>normalize("a b c") = "a b c"\<close>.
\<close>

theorem despacing_only_upper_runs:
  "filter (\<lambda>c. c \<noteq> CHR '' '') (remove_spaced_out_words t) = filter (\<lambda>c. c \<noteq> CHR '' '') t
   \<and> despaced True t (remove_spaced_out_words t)
   \<and> ((\<forall>c\<in>set t. \<not> is_upper c) \<longrightarrow> remove_spaced_out_words t = t)
   \<and> normalize_text ''J O H N Smith'' = ''JOHN Smith''
   \<and> normalize_text ''A B C 1 2 3'' = ''ABC 1 2 3''
   \<and> normalize_text ''a b c'' = ''a b c''"
proof -
  have "normalize_text ''J O H N Smith'' = ''JOHN Smith''"
    by (simp add: normalize_text_def remove_spaced_out_words_def strip_def lstrip_def rstrip_def is_space_def is_upper_def)
  moreover have "normalize_text ''A B C 1 2 3'' = ''ABC 1 2 3''"
    by (simp add: normalize_text_def remove_spaced_out_words_def strip_def lstrip_def rstrip_def is_space_def is_upper_def)
  moreover have "normalize_text ''a b c'' = ''a b c''"
    by (simp add: normalize_text_def remove_spaced_out_words_def strip_def lstrip_def rstrip_def is_space_def is_upper_def)
  ultimately show ?thesis
    by (simp add: remove_spaced_out_words_def filter_sub_spaced despaced_sub_spaced sub_spaced_no_upper)
qed

theorem despacing_only_upper_runs_witness:
  "list_all (\<lambda>c. \<not> is_upper c) ''a b c'' \<and> remove_spaced_out_words ''a b c'' = ''a b c''
   \<and> despaced True ''J O H N Smith'' ''JOHN Smith''"
proof -
  have h: "\<forall>c\<in>set ''a b c''. \<not> is_upper c" by (simp add: is_upper_def)
  have e: "remove_spaced_out_words ''J O H N Smith'' = ''JOHN Smith''"
    by (simp add: remove_spaced_out_words_def is_space_def is_upper_def)
  from h e despacing_only_upper_runs [of "''a b c''"] despacing_only_upper_runs [of "''J O H N Smith''"]
  show ?thesis by simp
qed

section \<open>Normalizing twice\<close>

lemma single_upperE: "single_upper w \<Longrightarrow> \<exists>c. w = [c] \<and> is_upper c"
  by (cases w rule: single_upper.cases) auto

lemma run_Cons: "run (w # ws) = (if single_upper w then Suc (run ws) else 0)"
  by (simp add: run_def)

lemma run_Nil [simp]: "run [] = 0"
  by (simp add: run_def)

lemma run_le: "run ws \<le> length ws"
  by (simp add: run_def length_takeWhile_le)

lemma upper_not_space: "is_upper c \<Longrightarrow> \<not> is_space c"
  by (auto simp: is_upper_def is_space_def Let_def)

lemma spaced_tail_not_single:
  assumes "w \<noteq> []" "\<forall>c\<in>set w. \<not> is_space c" "\<not> single_upper w"
  shows "spaced_tail (w @ CHR '' '' # s) = None" and "spaced_tail w = None"
proof -
  obtain c w' where w: "w = c # w'" using assms(1) by (cases w) auto
  show "spaced_tail (w @ CHR '' '' # s) = None"
    using assms(2,3) w by (cases w') auto
  show "spaced_tail w = None"
    using assms(2,3) w by (cases w') auto
qed

lemma spaced_tail_unwords:
  "good_tokens ws \<Longrightarrow>
     spaced_tail (unwords ws) = (if run ws = 0 then None else Some (2 * run ws - 1))"
proof (induction ws rule: unwords.induct)
  case 1
  show ?case by simp
next
  case (2 w)
  then have w: "w \<noteq> []" "\<forall>c\<in>set w. \<not> is_space c" by (simp_all add: good_tokens_Cons)
  show ?case
  proof (cases "single_upper w")
    case True
    then show ?thesis by (auto simp: run_Cons dest: single_upperE)
  next
    case False
    with w show ?thesis by (simp add: run_Cons spaced_tail_not_single)
  qed
next
  case (3 w v ws)
  then have w: "w \<noteq> []" "\<forall>c\<in>set w. \<not> is_space c" and g: "good_tokens (v # ws)"
    by (simp_all add: good_tokens_Cons)
  note IH = 3(1) [OF g]
  show ?case
  proof (cases "single_upper w")
    case True
    then obtain c where c: "w = [c]" "is_upper c" by (auto dest: single_upperE)
    with IH show ?thesis by (cases "run (v # ws) = 0") (simp_all add: run_Cons)
  next
    case False
    with w show ?thesis by (simp add: run_Cons spaced_tail_not_single)
  qed
qed

lemma spaced_match_unwords:
  assumes "good_tokens ws"
  shows "spaced_match (unwords ws) = (if 2 \<le> run ws then Some (2 * run ws - 1) else None)"
proof (cases ws rule: unwords.cases)
  case 1
  then show ?thesis by simp
next
  case (2 w)
  with assms show ?thesis
    by (cases w rule: spaced_match.cases) (auto simp: run_Cons good_tokens_Cons)
next
  case (3 w v vs)
  with assms have w: "w \<noteq> []" "\<forall>c\<in>set w. \<not> is_space c" and g: "good_tokens (v # vs)"
    by (simp_all add: good_tokens_Cons)
  note T = spaced_tail_unwords [OF g]
  show ?thesis
  proof (cases "single_upper w")
    case True
    then obtain c where c: "w = [c]" "is_upper c" by (auto dest: single_upperE)
    with T 3 show ?thesis by (cases "run (v # vs) = 0") (simp_all add: run_Cons)
  next
    case False
    obtain c w' where cw: "w = c # w'" using w(1) by (cases w) auto
    have "spaced_match (w @ CHR '' '' # unwords (v # vs)) = None"
      using False w cw by (cases w') auto
    with False 3 show ?thesis by (simp add: run_Cons)
  qed
qed

lemma unwords_append:
  "xs \<noteq> [] \<Longrightarrow> ys \<noteq> [] \<Longrightarrow> unwords (xs @ ys) = unwords xs @ CHR '' '' # unwords ys"
  by (induction xs rule: unwords.induct) (auto simp: unwords_Cons)

lemma unwords_split:
  assumes "0 < k"
  shows "unwords ws = unwords (take k ws)
           @ (if drop k ws = [] then [] else CHR '' '' # unwords (drop k ws))"
proof (cases "drop k ws = []")
  case True
  then show ?thesis by simp
next
  case False
  then have "take k ws \<noteq> []" using assms by (cases ws) auto
  from unwords_append [OF this False] show ?thesis using False by simp
qed

lemma single_run_take: "\<forall>w\<in>set (take (run ws) ws). single_upper w"
  by (auto simp: run_def takeWhile_eq_take [symmetric] dest: set_takeWhileD)

lemma length_unwords_single:
  "\<forall>w\<in>set xs. single_upper w \<Longrightarrow> length (unwords xs) = 2 * length xs - 1"
  by (induction xs rule: unwords.induct) (auto dest!: single_upperE)

lemma filter_unwords_single:
  "\<forall>w\<in>set xs. single_upper w \<Longrightarrow> filter (\<lambda>x. x \<noteq> CHR '' '') (unwords xs) = concat xs"
  by (induction xs rule: unwords.induct) (auto dest!: single_upperE simp: upper_not_blank)

lemma last_unwords_single:
  "\<forall>w\<in>set xs. single_upper w \<Longrightarrow> xs \<noteq> [] \<Longrightarrow> \<not> is_space (last (unwords xs))"
  by (induction xs rule: unwords.induct) (auto dest!: single_upperE simp: upper_not_space unwords_Cons)

lemma sub_spaced_copy:
  "\<forall>x\<in>set u. \<not> is_space x \<Longrightarrow> sub_spaced False (u @ t) = u @ sub_spaced False t"
  by (induction u) auto

lemma merge_runs_eq_Nil: "merge_runs ws = [] \<longleftrightarrow> ws = []"
  by (cases ws) auto

lemma good_tokens_drop: "good_tokens ws \<Longrightarrow> good_tokens (drop k ws)"
  by (auto simp: good_tokens_def dest: in_set_dropD)

lemma sub_spaced_unwords:
  "good_tokens ws \<Longrightarrow> sub_spaced True (unwords ws) = unwords (merge_runs ws)"
proof (induction ws rule: merge_runs.induct)
  case 1
  show ?case by simp
next
  case (2 w ws)
  let ?ws = "w # ws"
  let ?r = "run ?ws"
  from 2(3) have w: "w \<noteq> []" "\<forall>c\<in>set w. \<not> is_space c" and g: "good_tokens ws"
    by (simp_all add: good_tokens_Cons)
  obtain c w' where cw: "w = c # w'" using w(1) by (cases w) auto
  have ne: "unwords ?ws = c # w' @ (if ws = [] then [] else CHR '' '' # unwords ws)"
    by (simp add: unwords_Cons cw)
  show ?case
  proof (cases "2 \<le> ?r")
    case True
    let ?xs = "take ?r ?ws" and ?ys = "drop ?r ?ws"
    let ?tail = "if ?ys = [] then [] else CHR '' '' # unwords ?ys"
    have xs: "\<forall>w\<in>set ?xs. single_upper w" by (rule single_run_take)
    have xs_ne: "?xs \<noteq> []" using True by simp
    have lx: "length ?xs = ?r" using run_le [of ?ws] by simp
    have sp: "unwords ?ws = unwords ?xs @ ?tail"
      using unwords_split [of ?r ?ws] True by simp
    have len: "length (unwords ?xs) = 2 * ?r - 1"
      using length_unwords_single [OF xs] lx by simp
    have m: "spaced_match (unwords ?ws) = Some (2 * ?r - 1)"
      using spaced_match_unwords [OF 2(3)] True by simp
    have tk: "take (2 * ?r - 1) (unwords ?ws) = unwords ?xs"
      and dr: "drop (2 * ?r - 1) (unwords ?ws) = ?tail"
      using len by (simp_all add: sp)
    have "sub_spaced True (unwords ?ws) =
            filter (\<lambda>x. x \<noteq> CHR '' '') (take (2 * ?r - 1) (unwords ?ws))
            @ sub_spaced (is_space (last (take (2 * ?r - 1) (unwords ?ws))))
                (drop (2 * ?r - 1) (unwords ?ws))"
      using m by (subst ne, subst sub_spaced.simps) (simp add: ne [symmetric])
    also have "\<dots> = concat ?xs @ sub_spaced False ?tail"
      unfolding tk dr using filter_unwords_single [OF xs] last_unwords_single [OF xs xs_ne]
      by simp
    also have "sub_spaced False ?tail
                 = (if ?ys = [] then [] else CHR '' '' # unwords (merge_runs ?ys))"
      using 2(1) [OF True good_tokens_drop [OF 2(3)]] by simp
    also have "concat ?xs @ (if ?ys = [] then [] else CHR '' '' # unwords (merge_runs ?ys))
                 = unwords (merge_runs ?ws)"
      using True by (simp add: unwords_Cons merge_runs_eq_Nil)
    finally show ?thesis .
  next
    case False
    then have "spaced_match (unwords ?ws) = None"
      using spaced_match_unwords [OF 2(3)] by simp
    then have "sub_spaced True (unwords ?ws) = c # sub_spaced (is_space c) (w' @ (if ws = [] then [] else CHR '' '' # unwords ws))"
      by (simp add: ne)
    also have "\<dots> = c # w' @ sub_spaced False (if ws = [] then [] else CHR '' '' # unwords ws)"
      using w cw sub_spaced_copy [of w'] by simp
    also have "\<dots> = c # w' @ (if ws = [] then [] else CHR '' '' # unwords (merge_runs ws))"
      using 2(2) [OF False g] by simp
    also have "\<dots> = unwords (merge_runs ?ws)"
      using False by (simp add: unwords_Cons merge_runs_eq_Nil cw)
    finally show ?thesis .
  qed
qed

lemma concat_single_run:
  "\<forall>w\<in>set xs. single_upper w \<Longrightarrow> length (concat xs) = length xs \<and> (\<forall>c\<in>set (concat xs). \<not> is_space c)"
  by (induction xs) (auto dest!: single_upperE simp: upper_not_space)

lemma long_not_Nil: "2 \<le> length xs \<Longrightarrow> xs \<noteq> []"
  by auto

lemma good_tokens_merge_runs: "good_tokens ws \<Longrightarrow> good_tokens (merge_runs ws)"
proof (induction ws rule: merge_runs.induct)
  case 1
  show ?case by simp
next
  case (2 w ws)
  show ?case
  proof (cases "2 \<le> run (w # ws)")
    case True
    let ?xs = "take (run (w # ws)) (w # ws)"
    have xs: "\<forall>w\<in>set ?xs. single_upper w" by (rule single_run_take)
    have "length ?xs = run (w # ws)" using run_le [of "w # ws"] by simp
    with concat_single_run [OF xs] True
    have "2 \<le> length (concat ?xs)" and ns: "\<forall>c\<in>set (concat ?xs). \<not> is_space c"
      by simp_all
    then have "concat ?xs \<noteq> []"
      by (intro long_not_Nil)
    note this ns
    with True 2(1) [OF True good_tokens_drop [OF 2(3)]] show ?thesis
      by (simp add: good_tokens_Cons)
  next
    case False
    with 2(2) [OF False] 2(3) show ?thesis by (simp add: good_tokens_Cons)
  qed
qed

lemma not_single_long: "2 \<le> length w \<Longrightarrow> \<not> single_upper w"
  by (cases w rule: single_upper.cases) auto

lemma hd_merge_runs_not_single:
  "ws \<noteq> [] \<Longrightarrow> \<not> single_upper (hd ws) \<Longrightarrow> hd (merge_runs ws) = hd ws"
  by (cases ws) (auto simp: run_Cons)

lemma run_drop_run: "drop (run ws) ws = [] \<or> \<not> single_upper (hd (drop (run ws) ws))"
  using hd_dropWhile [of single_upper ws]
  by (auto simp: run_def dropWhile_eq_drop [symmetric])

lemma settled_merge_runs: "settled (merge_runs ws)"
proof (induction ws rule: merge_runs.induct)
  case 1
  show ?case by (simp add: settled_def)
next
  case (2 w ws)
  show ?case
  proof (cases "2 \<le> run (w # ws)")
    case True
    let ?xs = "take (run (w # ws)) (w # ws)"
    have xs: "\<forall>w\<in>set ?xs. single_upper w" by (rule single_run_take)
    have "length ?xs = run (w # ws)" using run_le [of "w # ws"] by simp
    with concat_single_run [OF xs] True have "\<not> single_upper (concat ?xs)"
      by (intro not_single_long) simp
    with True 2(1) [OF True] show ?thesis
      by (simp add: settled_def successively_Cons)
  next
    case False
    have "merge_runs ws = [] \<or> \<not> (single_upper w \<and> single_upper (hd (merge_runs ws)))"
    proof (cases "ws = [] \<or> \<not> single_upper w")
      case True
      then show ?thesis by auto
    next
      case c: False
      with False have "\<not> single_upper (hd ws)"
        by (cases ws) (auto simp: run_Cons)
      with c show ?thesis by (simp add: hd_merge_runs_not_single)
    qed
    with False 2(2) [OF False] show ?thesis
      by (simp add: settled_def successively_Cons)
  qed
qed

lemma settled_run: "settled ws \<Longrightarrow> run ws \<le> 1"
  by (cases ws rule: unwords.cases) (auto simp: settled_def run_Cons)

lemma settled_tl: "settled (w # ws) \<Longrightarrow> settled ws"
  by (auto simp: settled_def successively_Cons)

lemma merge_runs_settled: "settled ws \<Longrightarrow> merge_runs ws = ws"
proof (induction ws)
  case Nil
  show ?case by simp
next
  case (Cons w ws)
  from settled_run [OF Cons(2)] have "\<not> 2 \<le> run (w # ws)" by simp
  with Cons(1) [OF settled_tl [OF Cons(2)]] show ?case by simp
qed

lemma merge_runs_fixed: "merge_runs ws = ws \<longleftrightarrow> settled ws"
  using settled_merge_runs [of ws] merge_runs_settled [of ws] by auto

lemma normalize_text_unwords:
  assumes "good_tokens ws"
  shows "normalize_text (unwords ws) = unwords (merge_runs ws)"
proof -
  have "normalize_text (unwords ws) = unwords (tokens (unwords (merge_runs ws)))"
    by (simp add: normalize_text_def remove_spaced_out_words_def collapse_strip_tokens
                  sub_spaced_unwords [OF assms])
  then show ?thesis
    by (simp add: tokens_unwords good_tokens_merge_runs [OF assms])
qed

lemma unwords_inject:
  "good_tokens xs \<Longrightarrow> good_tokens ys \<Longrightarrow> unwords xs = unwords ys \<longleftrightarrow> xs = ys"
  by (metis tokens_unwords)

text \<open>
  C3, as the code has it. Normalizing is not idempotent: whitespace is collapsed after
  the de-spacing, so upper-case letters that were separated by several whitespace
  characters are separated by one space in the result, and a second normalization joins
  them. A second normalization is the last one that changes anything: the third gives
  what the second gave, for every text; and normalizing the normalized text changes
  nothing exactly when no two consecutive words of it are single upper-case letters.
\<close>

theorem normalize_text_settles:
  "normalize_text (normalize_text (normalize_text x)) = normalize_text (normalize_text x)
   \<and> (normalize_text (normalize_text x) = normalize_text x
        \<longleftrightarrow> settled (tokens (normalize_text x)))"
proof -
  define ws where "ws = tokens (remove_spaced_out_words x)"
  have g: "good_tokens ws" by (simp add: ws_def good_tokens_tokens)
  have n1: "normalize_text x = unwords ws"
    by (simp add: normalize_text_def ws_def collapse_strip_tokens)
  have n2: "normalize_text (unwords ws) = unwords (merge_runs ws)"
    by (rule normalize_text_unwords [OF g])
  have n3: "normalize_text (unwords (merge_runs ws)) = unwords (merge_runs (merge_runs ws))"
    by (rule normalize_text_unwords [OF good_tokens_merge_runs [OF g]])
  have mm: "merge_runs (merge_runs ws) = merge_runs ws"
    by (rule merge_runs_settled [OF settled_merge_runs])
  have "unwords (merge_runs ws) = unwords ws \<longleftrightarrow> settled ws"
    using unwords_inject [OF good_tokens_merge_runs [OF g] g] merge_runs_fixed [of ws] by simp
  then show ?thesis
    by (simp add: n1 n2 n3 mm tokens_unwords [OF g])
qed

theorem normalize_text_settles_witness:
  "normalize_text (normalize_text (normalize_text ''A  B'')) = ''AB''
   \<and> normalize_text (normalize_text ''A  B'') = ''AB''
   \<and> \<not> settled (tokens (normalize_text ''A  B''))"
proof -
  have e1: "normalize_text ''A  B'' = ''A B''"
    by (simp add: normalize_text_def remove_spaced_out_words_def strip_def lstrip_def
                  rstrip_def is_space_def is_upper_def)
  have e2: "normalize_text ''A B'' = ''AB''"
    by (simp add: normalize_text_def remove_spaced_out_words_def strip_def lstrip_def
                  rstrip_def is_space_def is_upper_def)
  from normalize_text_settles [of "''A  B''"] show ?thesis
    unfolding e1 e2 by simp
qed

text \<open>
  The claim as stated fails on \<open>"A  B"\<close> (two spaces): it normalizes to \<open>"A B"\<close>, which
  normalizes to \<open>"AB"\<close>.
\<close>

theorem normalize_text_not_idempotent:
  "normalize_text (normalize_text ''A  B'') \<noteq> normalize_text ''A  B''"
  by (simp add: normalize_text_def remove_spaced_out_words_def strip_def lstrip_def rstrip_def is_space_def is_upper_def)

section \<open>The extraction loop, the provisioner and the engine, event by event\<close>

lemma printed_append [simp]: "printed (xs @ ys) = printed xs @ printed ys"
  by (induction xs rule: printed.induct) auto

lemma fractions_append [simp]: "fractions (xs @ ys) = fractions xs @ fractions ys"
  by (induction xs rule: fractions.induct) auto

lemma extract_loop_Cons:
  "extract_loop host n i (p # ps) =
     (case extract_text host p of
        Inl e \<Rightarrow>
          (Progress (of_nat (i + 1) / of_nat n * (1 / 2))
                (''Extracting text ('' @ str_nat (i + 1) @ ''/'' @ str_nat n
                   @ ''): '' @ basename p)
           # Printed (''Warning: Could not process '' @ basename p @ '': '' @ str_of e)
           # fst (extract_loop host n (Suc i) ps),
           snd (extract_loop host n (Suc i) ps))
      | Inr txt \<Rightarrow>
          (Progress (of_nat (i + 1) / of_nat n * (1 / 2))
                (''Extracting text ('' @ str_nat (i + 1) @ ''/'' @ str_nat n
                   @ ''): '' @ basename p)
           # fst (extract_loop host n (Suc i) ps),
           build_resume p txt # snd (extract_loop host n (Suc i) ps)))"
  by (simp add: Let_def case_prod_beta build_resume_def update_progress_def split: sum.splits)

lemma extract_loop_resumes:
  "snd (extract_loop host n i paths) = map (\<lambda>(p, txt). build_resume p txt) (extracted host paths)"
proof (induction paths arbitrary: i)
  case Nil
  show ?case by (simp add: extracted_def)
next
  case (Cons p paths)
  from Cons [of "Suc i"] show ?case
    by (simp add: extract_loop_Cons extracted_def del: extract_loop.simps split: sum.splits)
qed


lemma extract_loop_fractions:
  "fractions (fst (extract_loop host n i paths))
     = map (\<lambda>j. of_nat (j + 1) / of_nat n * (1 / 2)) [i ..< i + length paths]"
proof (induction paths arbitrary: i)
  case Nil
  show ?case by simp
next
  case (Cons p paths)
  have "[i ..< i + length (p # paths)] = i # [Suc i ..< Suc i + length paths]"
    by (simp add: upt_rec)
  with Cons [of "Suc i"] show ?case
    by (simp add: extract_loop_Cons del: extract_loop.simps split: sum.splits)
qed

lemma extract_loop_events:
  "\<forall>e\<in>set (fst (extract_loop host n i paths)). \<not> is_encode e \<and> \<not> is_sink e \<and> \<not> is_download e"
proof (induction paths arbitrary: i)
  case Nil
  show ?case by simp
next
  case (Cons p paths)
  from Cons [of "Suc i"] show ?case
    by (simp add: extract_loop_Cons del: extract_loop.simps split: sum.splits)
qed



lemma upt_1_11: "[1..<11] = [1, 2, 3, 4, 5, 6, 7, 8, 9, 10 :: nat]"
  by code_simp

lemma fractions_map_Progress: "fractions (map (\<lambda>i. Progress (f i) (g i)) xs) = map f xs"
  by (induction xs) auto


lemma worker_body_cases:
  obtains
    (load_failed) t1 e d where
      "load_model host disk (Some update_progress) = (t1, Inl e, d)"
      "worker_body host self disk role description = (t1, Inl e, d)"
  | (no_resumes) t1 m d t2 where
      "load_model host disk (Some update_progress) = (t1, Inr m, d)"
      "gather_resumes host self = (t2, [])"
      "worker_body host self disk role description
         = (t1 @ t2, Inl (ValueError ''No valid resumes could be processed.''), d)"
  | (ranked) t1 m d t2 rs t3 r where
      "load_model host disk (Some update_progress) = (t1, Inr m, d)"
      "gather_resumes host self = (t2, rs)" "rs \<noteq> []"
      "rank_resumes host rs (full_job_desc role description) m (Some ranking_progress_callback)
         = (t3, r)"
      "worker_body host self disk role description = (t1 @ t2 @ t3, r, d)"
proof -
  obtain t1 r1 d where l: "load_model host disk (Some update_progress) = (t1, r1, d)"
    by (cases "load_model host disk (Some update_progress)") auto
  obtain t2 rs where g: "gather_resumes host self = (t2, rs)"
    by (cases "gather_resumes host self") auto
  show ?thesis
  proof (cases r1)
    case (Inl e)
    with l show ?thesis by (intro load_failed [of t1 e d]) (simp_all add: worker_body_def)
  next
    case (Inr m)
    obtain t3 r where k: "rank_resumes host rs (full_job_desc role description) m (Some ranking_progress_callback) = (t3, r)"
      by (cases "rank_resumes host rs (full_job_desc role description) m (Some ranking_progress_callback)") auto
    show ?thesis
    proof (cases "rs = []")
      case True
      with l g Inr show ?thesis
        by (intro no_resumes [of t1 m d t2]) (simp_all add: worker_body_def)
    next
      case False
      with l g Inr k show ?thesis
        by (intro ranked [of t1 m d t2 rs t3 r]) (simp_all add: worker_body_def full_job_desc_def)
    qed
  qed
qed

lemma gather_resumes_folder:
  "preloaded_resume_data self = None \<Longrightarrow>
     gather_resumes host self =
       (Progress 0 (''Extracting text (0/'' @ str_nat (length (selected_files self)) @ '')...'')
          # fst (extract_loop host (length (selected_files self)) 0 (selected_files self)),
        map (\<lambda>(p, txt). build_resume p txt) (extracted host (selected_files self)))"
  by (simp add: gather_resumes_def Let_def case_prod_beta update_progress_def
                extract_loop_resumes)

lemma rank_resumes_events:
  "\<forall>e\<in>set (fst (rank_resumes host rs jd m (Some ranking_progress_callback))).
      \<not> is_sink e \<and> \<not> is_download e"
  by (simp add: rank_resumes_def Let_def report_def ranking_progress_callback_def
                update_progress_def split: sum.splits)


lemma rank_resumes_fractions:
  "fractions (fst (rank_resumes host rs jd m (Some ranking_progress_callback)))
     \<in> {[1 / 2], [1 / 2, 3 / 5], [1 / 2, 3 / 5, 17 / 20], [1 / 2, 3 / 5, 17 / 20, 19 / 20, 1]}
   \<and> (snd (rank_resumes host rs jd m (Some ranking_progress_callback)) = Inr r
        \<longrightarrow> fractions (fst (rank_resumes host rs jd m (Some ranking_progress_callback)))
              = [1 / 2, 3 / 5, 17 / 20, 19 / 20, 1])"
  by (simp add: rank_resumes_def Let_def report_def ranking_progress_callback_def
                update_progress_def split: sum.splits)

text \<open>The two branches of \<open>load_model\<close> with the progress sink as callback.\<close>

lemma load_model_download:
  "load_model host None (Some update_progress) =
     (case fetch_model host of
        Inl e \<Rightarrow>
          ([Progress 0 ''Downloading model for first use. This may take a few minutes...'',
            Download], Inl e, None)
      | Inr model \<Rightarrow>
          (case save_failure host of
             Some e \<Rightarrow>
               ([Progress 0 ''Downloading model for first use. This may take a few minutes...'',
                 Download, Save], Inl e, if save_leaves_path host then Some model else None)
           | None \<Rightarrow>
               ([Progress 0 ''Downloading model for first use. This may take a few minutes...'',
                 Download, Save, Progress 1 ''Model downloaded successfully''],
                Inr model, Some model)))"
  by (simp add: load_model_def report_def update_progress_def split: sum.splits option.splits)

lemma load_model_stored:
  "load_model host (Some stored) (Some update_progress) =
     (Progress 0 ''Loading model from disk...''
        # map (\<lambda>i. Progress (of_nat i / 10)
                  (''Loading model components ('' @ str_nat (i * 10) @ ''%)...''))
              [1 ..< 11]
        @ LoadFromDisk
        # (case read_failure host of
             None \<Rightarrow> [Progress 1 ''Model loaded successfully'']
           | Some e \<Rightarrow> []),
      (case read_failure host of None \<Rightarrow> Inr stored | Some e \<Rightarrow> Inl e),
      Some stored)"
proof -
  have "concat (map (\<lambda>i. update_progress (f i) (g i)) xs) = map (\<lambda>i. Progress (f i) (g i)) xs"
    for f g and xs :: "nat list"
    by (induction xs) (auto simp: update_progress_def)
  then show ?thesis
    by (simp add: load_model_def report_def update_progress_def split: option.splits)
qed

lemma load_model_events:
  "\<forall>e\<in>set (fst (load_model host disk (Some update_progress))). \<not> is_encode e \<and> \<not> is_sink e"
  by (cases disk)
     (auto simp: load_model_download load_model_stored split: sum.splits option.splits)


lemma load_model_fractions:
  "fractions (fst (load_model host disk (Some update_progress)))
     \<in> {[0], [0, 1],
        [0, 1 / 10, 2 / 10, 3 / 10, 4 / 10, 5 / 10, 6 / 10, 7 / 10, 8 / 10, 9 / 10, 1],
        [0, 1 / 10, 2 / 10, 3 / 10, 4 / 10, 5 / 10, 6 / 10, 7 / 10, 8 / 10, 9 / 10, 1, 1]}"
proof (cases disk)
  case None
  then show ?thesis
    by (simp add: load_model_download split: sum.splits option.splits)
next
  case (Some stored)
  have "fractions (map (\<lambda>i. Progress (of_nat i / 10)
                  (''Loading model components ('' @ str_nat (i * 10) @ ''%)...'')) [1 ..< 11])
        = map (\<lambda>i. of_nat i / 10) [1, 2, 3, 4, 5, 6, 7, 8, 9, 10 :: nat]"
    by (simp only: fractions_map_Progress upt_1_11)
  then show ?thesis
    by (simp add: Some load_model_stored split: option.splits)
qed








lemma rank_resumes_batches:
  "EncodeBatch ts \<in> set (fst (rank_resumes host rs jd m (Some ranking_progress_callback)))
     \<Longrightarrow> ts = map resume_text rs"
  by (simp add: rank_resumes_def Let_def report_def ranking_progress_callback_def
                update_progress_def split: sum.splits)

lemma worker_trace:
  "fst (process_resumes_worker host self disk role description)
     = fst (worker_body host self disk role description)
       @ (case fst (snd (worker_body host self disk role description)) of
            Inr ranked \<Rightarrow> update_results_display ranked
          | Inl e \<Rightarrow> [])"
  by (simp add: process_resumes_worker_def failure_callback_def split: prod.splits sum.splits)

lemma sink_not_encode:
  "\<forall>e\<in>set (case r of Inr ranked \<Rightarrow> update_results_display ranked
                    | Inl e \<Rightarrow> []). \<not> is_encode e"
  by (cases r) (auto simp: update_results_display_def update_progress_def)

lemma map_fst_extracted:
  "map fst (extracted host paths) = filter (\<lambda>p. \<not> isl (extract_text host p)) paths"
  by (induction paths) (auto simp: extracted_def split: sum.splits)

lemma strip_eq_Nil: "strip l = [] \<longleftrightarrow> (\<forall>c\<in>set l. is_space c)"
proof -
  have "(\<forall>c\<in>set (dropWhile is_space l). is_space c) \<longleftrightarrow> (\<forall>c\<in>set l. is_space c)"
    by (induction l) auto
  then show ?thesis
    by (simp add: strip_def lstrip_def rstrip_eq_Nil)
qed

lemma first_stripped_line_eq_Nil:
  "first_stripped_line ls = [] \<longleftrightarrow> (\<forall>l\<in>set ls. strip l = [])"
  by (induction ls) (auto simp: Let_def)

lemma candidate_name_build_resume: "candidate_name (build_resume p txt) \<noteq> []"
  by (simp add: build_resume_def)

lemma complete_in_worker:
  assumes "Complete ranked \<in> set (fst (process_resumes_worker host self disk role description))"
  shows "\<exists>t d. worker_body host self disk role description = (t, Inr ranked, d)"
proof -
  obtain t r d where w: "worker_body host self disk role description = (t, r, d)"
    by (cases "worker_body host self disk role description") auto
  have "\<forall>e\<in>set t. \<not> is_sink e"
  proof (cases rule: worker_body_cases [of host disk self role description])
    case (load_failed t1 e d)
    with w load_model_events [of host disk] show ?thesis by auto
  next
    case (no_resumes t1 m d t2)
    moreover have "\<forall>e\<in>set t2. \<not> is_sink e"
      using no_resumes(2) extract_loop_events [of host "length (selected_files self)" 0 "selected_files self"]
      by (auto simp: gather_resumes_def update_progress_def Let_def case_prod_beta
               split: option.splits list.splits)
    ultimately show ?thesis
      using w load_model_events [of host disk] by auto
  next
    case (ranked t1 m d t2 rs t3 r)
    moreover have "\<forall>e\<in>set t2. \<not> is_sink e"
      using ranked(2) extract_loop_events [of host "length (selected_files self)" 0 "selected_files self"]
      by (auto simp: gather_resumes_def update_progress_def Let_def case_prod_beta
               split: option.splits list.splits)
    ultimately show ?thesis
      using w load_model_events [of host disk]
        rank_resumes_events [of host rs "full_job_desc role description" m] by auto
  qed
  with assms w show ?thesis
    by (cases r)
       (auto simp: process_resumes_worker_def failure_callback_def update_results_display_def
                   update_progress_def)
qed

lemma gather_events:
  "\<forall>e\<in>set (fst (gather_resumes host self)). \<not> is_encode e \<and> \<not> is_sink e"
  using extract_loop_events [of host "length (selected_files self)" 0 "selected_files self"]
  by (auto simp: gather_resumes_def update_progress_def Let_def case_prod_beta
           split: option.splits list.splits)

lemma load_model_success_disk:
  "load_model host disk cb = (t, Inr model, disk') \<Longrightarrow> disk' = Some model"
  by (auto simp: load_model_def Let_def split: option.splits sum.splits)

lemma filter_download_map_Progress:
  "filter is_download (map (\<lambda>i. Progress (f i) (g i)) xs) = []"
  by (induction xs) auto

lemma loop_fractions_sorted:
  "sorted (map (\<lambda>j. of_nat (j + 1) / of_nat n * (1 / 2) :: rat) [i ..< k])"
proof -
  have "sorted_wrt (\<lambda>a b. (of_nat (a + 1) / of_nat n * (1 / 2) :: rat)
                            \<le> of_nat (b + 1) / of_nat n * (1 / 2)) [i ..< k]"
  proof (rule sorted_wrt_mono_rel [OF _ sorted_wrt_upt])
    fix a b :: nat
    assume "a < b"
    then have "(of_nat (a + 1) :: rat) \<le> of_nat (b + 1)" by simp
    then have "(of_nat (a + 1) :: rat) / of_nat n \<le> of_nat (b + 1) / of_nat n"
      by (rule divide_right_mono) simp
    then show "(of_nat (a + 1) / of_nat n * (1 / 2) :: rat) \<le> of_nat (b + 1) / of_nat n * (1 / 2)"
      by simp
  qed
  then show ?thesis by (simp add: sorted_map)
qed

lemma loop_fractions_bounds:
  assumes "j < n"
  shows "0 \<le> (of_nat (j + 1) / of_nat n * (1 / 2) :: rat)"
    and "(of_nat (j + 1) / of_nat n * (1 / 2) :: rat) \<le> 1 / 2"
proof -
  show "0 \<le> (of_nat (j + 1) / of_nat n * (1 / 2) :: rat)" by simp
  have "(of_nat (j + 1) :: rat) \<le> of_nat n" using assms by simp
  then have "(of_nat (j + 1) :: rat) / of_nat n \<le> 1"
    using assms by (simp add: divide_le_eq_1)
  then have "(of_nat (j + 1) :: rat) / of_nat n * (1 / 2) \<le> 1 * (1 / 2)"
    by (rule mult_right_mono) simp
  then show "(of_nat (j + 1) / of_nat n * (1 / 2) :: rat) \<le> 1 / 2" by simp
qed

lemma gather_fractions:
  "sorted (fractions (fst (gather_resumes host self)))
   \<and> (\<forall>v\<in>set (fractions (fst (gather_resumes host self))). 0 \<le> v \<and> v \<le> 1 / 2)"
proof (cases "\<exists>r rs. preloaded_resume_data self = Some (r # rs)")
  case True
  then show ?thesis
    by (auto simp: gather_resumes_def update_progress_def)
next
  case False
  let ?n = "length (selected_files self)"
  have g: "fractions (fst (gather_resumes host self))
             = 0 # map (\<lambda>j. of_nat (j + 1) / of_nat ?n * (1 / 2)) [0 ..< ?n]"
    using False extract_loop_fractions [of host ?n 0 "selected_files self"]
    by (auto simp: gather_resumes_def update_progress_def Let_def case_prod_beta
             split: option.splits list.splits)
  have b: "\<forall>v\<in>set (map (\<lambda>j. of_nat (j + 1) / of_nat ?n * (1 / 2) :: rat) [0 ..< ?n]). 0 \<le> v \<and> v \<le> 1 / 2"
    using loop_fractions_bounds [of _ ?n] by auto
  show ?thesis
    unfolding g using b loop_fractions_sorted [of ?n 0 ?n] by auto
qed

lemma load_fractions_sorted:
  "sorted (fractions (fst (load_model host disk (Some update_progress))))
   \<and> (\<forall>v\<in>set (fractions (fst (load_model host disk (Some update_progress)))). 0 \<le> v \<and> v \<le> 1)"
  using load_model_fractions [of host disk] by auto

lemma rank_fractions_sorted:
  "sorted (fractions (fst (rank_resumes host rs jd m (Some ranking_progress_callback))))
   \<and> (\<forall>v\<in>set (fractions (fst (rank_resumes host rs jd m (Some ranking_progress_callback)))).
         1 / 2 \<le> v \<and> v \<le> 1)"
  using rank_resumes_fractions [of host rs jd m undefined, THEN conjunct1] by auto

section \<open>Per-document failures\<close>



text \<open>
  C6, as the code has it. The texts passed to \<open>rank_resumes\<close> and encoded as one batch
  are the normalized texts of all files whose extraction returned, in input order, and
  there is at least one; only files whose extraction raised are left out. A file whose
  text normalizes to the empty string is not left out: its empty text is encoded.
\<close>

theorem encoded_texts_are_extracted:
  assumes "preloaded_resume_data self = None"
  shows "(\<forall>texts. EncodeBatch texts
                     \<in> set (fst (process_resumes_worker host self disk role description)) \<longrightarrow>
                   texts = map (\<lambda>(p, txt). normalize_text txt)
                               (extracted host (selected_files self))
                   \<and> texts \<noteq> [])
         \<and> map fst (extracted host (selected_files self))
             = filter (\<lambda>p. \<not> isl (extract_text host p)) (selected_files self)"
proof -
  let ?files = "selected_files self"
  let ?rs = "map (\<lambda>(p, txt). build_resume p txt) (extracted host ?files)"
  note g = gather_resumes_folder [OF assms, of host]
  have texts: "map resume_text ?rs = map (\<lambda>(p, txt). normalize_text txt) (extracted host ?files)"
    by (simp add: build_resume_def case_prod_unfold)
  have "texts = map (\<lambda>(p, txt). normalize_text txt) (extracted host ?files) \<and> texts \<noteq> []"
    if b: "EncodeBatch texts \<in> set (fst (process_resumes_worker host self disk role description))"
    for texts
  proof -
    from b sink_not_encode
    have wb: "EncodeBatch texts \<in> set (fst (worker_body host self disk role description))"
      unfolding worker_trace by fastforce
    show ?thesis
    proof (cases rule: worker_body_cases [of host disk self role description])
      case (load_failed t1 e d)
      with wb load_model_events [of host disk] show ?thesis by fastforce
    next
      case (no_resumes t1 m d t2)
      with wb load_model_events [of host disk] extract_loop_events [of host "length ?files" 0 ?files] g
      show ?thesis by fastforce
    next
      case (ranked t1 m d t2 rs t3 r)
      with g have rs: "rs = ?rs" and t2: "\<forall>e\<in>set t2. \<not> is_encode e"
        using extract_loop_events [of host "length ?files" 0 ?files] by auto
      from wb ranked load_model_events [of host disk] t2
      have "EncodeBatch texts \<in> set t3" by fastforce
      with ranked(4) have "texts = map resume_text rs"
        using rank_resumes_batches [of texts host rs "full_job_desc role description" m] by simp
      with ranked(3) rs texts show ?thesis by auto
    qed
  qed
  then show ?thesis
    by (simp add: map_fst_extracted)
qed

theorem encoded_texts_are_extracted_witness:
  "EncodeBatch [[]] \<in> set (fst (process_resumes_worker sample_host folder_of_scan None ''Dev'' ''Python''))
   \<and> [[]] = map (\<lambda>(p, txt). normalize_text txt)
               (extracted sample_host (selected_files folder_of_scan))"
proof -
  have p: "preloaded_resume_data folder_of_scan = None"
    by (simp add: folder_of_scan_def)
  have b: "EncodeBatch [[]] \<in> set (fst (process_resumes_worker sample_host folder_of_scan None ''Dev'' ''Python''))"
    by (simp add: process_resumes_worker_def worker_body_def load_model_download
          gather_resumes_def folder_of_scan_def sample_host_def sample_model_def
          rank_resumes_def report_def ranking_progress_callback_def update_progress_def
          normalize_text_def remove_spaced_out_words_def strip_def lstrip_def rstrip_def
          extract_candidate_name_def splitlines_def Let_def)
  from b encoded_texts_are_extracted [OF p, of sample_host None "''Dev''" "''Python''"]
  show ?thesis by blast
qed

text \<open>
  The claim as stated fails for a scanned document, whose extracted text is empty: the
  batch that is encoded holds the empty string.
\<close>

theorem empty_text_is_encoded:
  "EncodeBatch [[]]
     \<in> set (fst (process_resumes_worker sample_host folder_of_scan None ''Dev'' ''Python''))"
  by (simp add: process_resumes_worker_def worker_body_def load_model_download
        gather_resumes_def folder_of_scan_def sample_host_def sample_model_def
        rank_resumes_def report_def ranking_progress_callback_def update_progress_def
        normalize_text_def remove_spaced_out_words_def strip_def lstrip_def rstrip_def
        extract_candidate_name_def splitlines_def Let_def)

section \<open>Candidate names\<close>

text \<open>
  C10. Every record the extraction loop builds has a non-empty candidate name; \<open>
  extract_candidate_name\<close> returns the empty string exactly when every line of the text
  consists of whitespace, and then the record's name is \<open>"Unknown Name"\<close>; so in a run
  over selected files no entry of a delivered ranking has an empty name.
\<close>

theorem candidate_name_never_empty:
  "(\<forall>r\<in>set (snd (extract_loop host n i paths)). candidate_name r \<noteq> [])
   \<and> (extract_candidate_name txt = []
        \<longleftrightarrow> (\<forall>line\<in>set (splitlines txt). \<forall>c\<in>set line. is_space c))
   \<and> (extract_text host p = Inr txt \<and> extract_candidate_name txt = [] \<longrightarrow>
        map candidate_name (snd (extract_loop host n i [p])) = [''Unknown Name''])
   \<and> (preloaded_resume_data self = None \<longrightarrow>
        (\<forall>ranked. Complete ranked
                     \<in> set (fst (process_resumes_worker host self disk role description)) \<longrightarrow>
                   (\<forall>x\<in>set ranked. candidate_name (fst x) \<noteq> [])))"
proof -
  have a: "\<forall>r\<in>set (snd (extract_loop host n i paths)). candidate_name r \<noteq> []"
    by (auto simp: extract_loop_resumes candidate_name_build_resume)
  have b: "extract_candidate_name txt = []
        \<longleftrightarrow> (\<forall>line\<in>set (splitlines txt). \<forall>c\<in>set line. is_space c)"
    by (simp add: extract_candidate_name_def first_stripped_line_eq_Nil strip_eq_Nil)
  have c: "map candidate_name (snd (extract_loop host n i [p])) = [''Unknown Name'']"
    if "extract_text host p = Inr txt \<and> extract_candidate_name txt = []"
    using that by (simp add: extract_loop_resumes extracted_def build_resume_def)
  have d: "\<forall>x\<in>set ranked. candidate_name (fst x) \<noteq> []"
    if p: "preloaded_resume_data self = None"
      and k: "Complete ranked \<in> set (fst (process_resumes_worker host self disk role description))"
    for ranked
  proof -
    let ?rs = "map (\<lambda>(p, txt). build_resume p txt) (extracted host (selected_files self))"
    from complete_in_worker [OF k] obtain t d
      where w: "worker_body host self disk role description = (t, Inr ranked, d)" by blast
    have "\<exists>t3 m. rank_resumes host ?rs (full_job_desc role description) m (Some ranking_progress_callback) = (t3, Inr ranked)"
    proof (cases rule: worker_body_cases [of host disk self role description])
      case (load_failed t1 e d)
      with w show ?thesis by simp
    next
      case (no_resumes t1 m d t2)
      with w show ?thesis by simp
    next
      case (ranked t1 m d t2 rs t3 r)
      with w gather_resumes_folder [OF p, of host] show ?thesis by auto
    qed
    then obtain t3 m where "rank_resumes host ?rs (full_job_desc role description) m (Some ranking_progress_callback) = (t3, Inr ranked)"
      by blast
    from rank_resumes_Inr [OF this] obtain scores
      where "ranked = sorted_py snd True (zip ?rs scores)" by blast
    then have "fst ` set ranked \<subseteq> set ?rs"
      by (auto simp: sorted_py_set dest: set_zip_leftD)
    then show ?thesis
      by (auto simp: candidate_name_build_resume)
  qed
  from a b c d show ?thesis by blast
qed

theorem candidate_name_never_empty_witness:
  "extract_text sample_host ''/cv/scan.pdf'' = Inr []
   \<and> extract_candidate_name [] = []
   \<and> map candidate_name (snd (extract_loop sample_host 1 0 [''/cv/scan.pdf''])) = [''Unknown Name'']"
proof -
  have h: "extract_text sample_host ''/cv/scan.pdf'' = Inr [] \<and> extract_candidate_name [] = []"
    by (simp add: sample_host_def extract_candidate_name_def splitlines_def)
  with candidate_name_never_empty [of sample_host 1 0 "[''/cv/scan.pdf'']" "[]" "''/cv/scan.pdf''"]
  show ?thesis by blast
qed

section \<open>Scoring an empty list\<close>

text \<open>
  C2, as the code has it. \<open>rank_resumes\<close> has no shortcut for the empty list: it always
  calls \<open>encode\<close> on the job description and, when that returns, on the empty batch; if
  it returns at all, it returns the empty ranking. The worker never gets that far: when
  no resume is left it raises before \<open>rank_resumes\<close>, so the run makes no call of \<open>
  encode\<close> and never calls the completion sink.
\<close>

theorem rank_resumes_always_encodes:
  "EncodeText jd \<in> set (fst (rank_resumes host [] jd model cb))
   \<and> (\<forall>j. encode_text model jd = Inr j \<longrightarrow>
          EncodeBatch [] \<in> set (fst (rank_resumes host [] jd model cb)))
   \<and> (\<forall>ranked. snd (rank_resumes host [] jd model cb) = Inr ranked \<longrightarrow> ranked = [])
   \<and> (snd (gather_resumes host self) = [] \<longrightarrow>
        filter is_encode (fst (process_resumes_worker host self disk role description)) = []
        \<and> (\<forall>ranked. Complete ranked
                       \<notin> set (fst (process_resumes_worker host self disk role description))))"
proof -
  have a: "EncodeText jd \<in> set (fst (rank_resumes host [] jd model cb))"
    by (simp add: rank_resumes_def Let_def split: sum.splits)
  have b: "\<forall>j. encode_text model jd = Inr j \<longrightarrow>
          EncodeBatch [] \<in> set (fst (rank_resumes host [] jd model cb))"
    by (simp add: rank_resumes_def Let_def split: sum.splits)
  have c: "\<forall>ranked. snd (rank_resumes host [] jd model cb) = Inr ranked \<longrightarrow> ranked = []"
    by (simp add: rank_resumes_def Let_def sorted_py_def split: sum.splits)
  have d: "filter is_encode (fst (process_resumes_worker host self disk role description)) = []
        \<and> (\<forall>ranked. Complete ranked
                       \<notin> set (fst (process_resumes_worker host self disk role description)))"
    if e: "snd (gather_resumes host self) = []"
  proof (cases rule: worker_body_cases [of host disk self role description])
    case (load_failed t1 e d)
    with load_model_events [of host disk] show ?thesis
      by (auto simp: process_resumes_worker_def failure_callback_def update_progress_def
                     filter_empty_conv)
  next
    case (no_resumes t1 m d t2)
    with load_model_events [of host disk] gather_events [of host self] show ?thesis
      by (auto simp: process_resumes_worker_def failure_callback_def update_progress_def
                     filter_empty_conv)
  next
    case (ranked t1 m d t2 rs t3 r)
    with e show ?thesis by simp
  qed
  from a b c d show ?thesis by blast
qed

theorem rank_resumes_always_encodes_witness:
  "encode_text sample_model ''Job'' = Inr 3
   \<and> EncodeBatch [] \<in> set (fst (rank_resumes sample_host [] ''Job'' sample_model None))
   \<and> snd (gather_resumes sample_host folder_of_failures) = []
   \<and> filter is_encode
        (fst (process_resumes_worker sample_host folder_of_failures None ''Dev'' ''Python'')) = []"
proof -
  have h1: "encode_text sample_model ''Job'' = Inr 3"
    by (simp add: sample_model_def)
  have h2: "snd (gather_resumes sample_host folder_of_failures) = []"
    by (simp add: gather_resumes_def folder_of_failures_def sample_host_def Let_def
                  case_prod_beta)
  from h1 h2
    rank_resumes_always_encodes [of "''Job''" sample_host sample_model None folder_of_failures
      None "''Dev''" "''Python''"]
  show ?thesis by blast
qed

text \<open>The claim as stated fails: on the empty list the model's \<open>encode\<close> is called.\<close>

theorem rank_resumes_empty_calls_encode:
  "filter is_encode (fst (rank_resumes sample_host [] ''Job'' sample_model None)) \<noteq> []"
  by (simp add: rank_resumes_def sample_host_def sample_model_def report_def)

section \<open>Provisioning twice\<close>

text \<open>
  C5, as the code has it. After a call of \<open>load_model\<close> that returned a model, the model
  is stored at the model path, and every later call (whatever the host does then) does
  not download: it loads the stored model from disk again, returns it unless reading
  fails, and reports progress again: \<open>0.0\<close>, then \<open>0.1\<close> to \<open>1.0\<close> in ten steps before it
  loads, and \<open>1.0\<close> once more after loading. Without a callback it reports nothing.
\<close>

theorem load_model_again_reloads:
  assumes "load_model host disk cb = (t, Inr model, disk')"
  shows "disk' = Some model
    \<and> filter is_download (fst (load_model host' disk' (Some update_progress))) = []
    \<and> LoadFromDisk \<in> set (fst (load_model host' disk' (Some update_progress)))
    \<and> fractions (fst (load_model host' disk' (Some update_progress)))
        = [0, 1 / 10, 2 / 10, 3 / 10, 4 / 10, 5 / 10, 6 / 10, 7 / 10, 8 / 10, 9 / 10, 1]
          @ (if read_failure host' = None then [1] else [])
    \<and> fst (snd (load_model host' disk' (Some update_progress)))
        = (case read_failure host' of None \<Rightarrow> Inr model | Some e \<Rightarrow> Inl e)
    \<and> snd (snd (load_model host' disk' (Some update_progress))) = disk'
    \<and> fst (load_model host' disk' None) = [LoadFromDisk]"
proof -
  have d: "disk' = Some model"
    by (rule load_model_success_disk [OF assms])
  have fr: "fractions (map (\<lambda>i. Progress (of_nat i / 10)
                  (''Loading model components ('' @ str_nat (i * 10) @ ''%)...'')) [1 ..< 11])
        = map (\<lambda>i. of_nat i / 10) [1, 2, 3, 4, 5, 6, 7, 8, 9, 10 :: nat]"
    by (simp only: fractions_map_Progress upt_1_11)
  have n: "fst (load_model host' (Some model) None) = [LoadFromDisk]"
    by (simp add: load_model_def report_def Let_def split: option.splits)
  show ?thesis
    unfolding d using fr n
    by (simp add: load_model_stored filter_download_map_Progress split: option.splits)
qed

theorem load_model_again_reloads_witness:
  "load_model sample_host None (Some update_progress)
     = ([Progress 0 ''Downloading model for first use. This may take a few minutes...'',
         Download, Save, Progress 1 ''Model downloaded successfully''],
        Inr sample_model, Some sample_model)
   \<and> filter is_download (fst (load_model sample_host (Some sample_model) (Some update_progress))) = []
   \<and> fst (snd (load_model sample_host (Some sample_model) (Some update_progress)))
       = Inr sample_model"
proof -
  have h: "load_model sample_host None (Some update_progress)
     = ([Progress 0 ''Downloading model for first use. This may take a few minutes...'',
         Download, Save, Progress 1 ''Model downloaded successfully''],
        Inr sample_model, Some sample_model)"
    by (simp add: load_model_download sample_host_def)
  have r: "read_failure sample_host = None"
    by (simp add: sample_host_def)
  from load_model_again_reloads [OF h, of sample_host] h r show ?thesis
    by simp
qed

text \<open>
  The claim as stated fails: the call after a successful download reports the fractions
  from \<open>0.0\<close> to \<open>1.0\<close> again.
\<close>

theorem load_model_again_reports_progress:
  "fst (snd (load_model sample_host None (Some update_progress))) = Inr sample_model
   \<and> fractions
        (fst (load_model sample_host
                (snd (snd (load_model sample_host None (Some update_progress))))
                (Some update_progress)))
       = [0, 1 / 10, 2 / 10, 3 / 10, 4 / 10, 5 / 10, 6 / 10, 7 / 10, 8 / 10, 9 / 10, 1, 1]"
proof -
  have fr: "fractions (map (\<lambda>i. Progress (of_nat i / 10)
                  (''Loading model components ('' @ str_nat (i * 10) @ ''%)...'')) [1 ..< 11])
        = map (\<lambda>i. of_nat i / 10) [1, 2, 3, 4, 5, 6, 7, 8, 9, 10 :: nat]"
    by (simp only: fractions_map_Progress upt_1_11)
  have h: "load_model sample_host None (Some update_progress)
     = ([Progress 0 ''Downloading model for first use. This may take a few minutes...'',
         Download, Save, Progress 1 ''Model downloaded successfully''],
        Inr sample_model, Some sample_model)"
    by (simp add: load_model_download sample_host_def)
  have r: "read_failure sample_host = None"
    by (simp add: sample_host_def)
  show ?thesis
    unfolding h using fr r by (simp add: load_model_stored)
qed

section \<open>Progress of one run\<close>

lemma load_fractions_ends:
  "fractions (fst (load_model host disk (Some update_progress))) \<noteq> []
   \<and> hd (fractions (fst (load_model host disk (Some update_progress)))) = 0
   \<and> (fst (snd (load_model host disk (Some update_progress))) = Inr m \<longrightarrow>
        last (fractions (fst (load_model host disk (Some update_progress)))) = 1)"
proof (cases disk)
  case None
  then show ?thesis
    by (simp add: load_model_download split: sum.splits option.splits)
next
  case (Some stored)
  have "fractions (map (\<lambda>i. Progress (of_nat i / 10)
                  (''Loading model components ('' @ str_nat (i * 10) @ ''%)...'')) [1 ..< 11])
        = map (\<lambda>i. of_nat i / 10) [1, 2, 3, 4, 5, 6, 7, 8, 9, 10 :: nat]"
    by (simp only: fractions_map_Progress upt_1_11)
  then show ?thesis
    by (simp add: Some load_model_stored split: option.splits)
qed

lemma gather_fractions_head:
  "fractions (fst (gather_resumes host self)) \<noteq> []
   \<and> hd (fractions (fst (gather_resumes host self)))
       = (case preloaded_resume_data self of Some (r # rs) \<Rightarrow> 1 / 2 | _ \<Rightarrow> 0)"
  by (simp add: gather_resumes_def update_progress_def Let_def case_prod_beta
           split: option.splits list.splits)

text \<open>
  C1, as the code has it. The progress fractions of the worker are two sweeps, each
  non-decreasing and all within \<open>[0, 1]\<close>. The first is that of \<open>load_model\<close>, as
  \<open>load_model\<close> reports it: it starts at \<open>0\<close> and, when the model is provisioned, ends at
  \<open>1\<close>. Behind it comes that of extraction and ranking, which starts again at \<open>0\<close> (at
  \<open>0.5\<close> with pre-processed data). When the worker succeeds, its last fraction is
  exactly \<open>1\<close> and the run ends with the completion sink, which reports \<open>1\<close> once more.
\<close>

theorem progress_two_sweeps:
  "\<exists>p2. fractions (fst (worker_body host self disk role description))
           = fractions (fst (load_model host disk (Some update_progress))) @ p2
      \<and> sorted (fractions (fst (load_model host disk (Some update_progress))))
      \<and> sorted p2
      \<and> (\<forall>v\<in>set (fractions (fst (worker_body host self disk role description))).
            0 \<le> v \<and> v \<le> 1)
      \<and> hd (fractions (fst (load_model host disk (Some update_progress)))) = 0
      \<and> (\<forall>m. fst (snd (load_model host disk (Some update_progress))) = Inr m \<longrightarrow>
            last (fractions (fst (load_model host disk (Some update_progress)))) = 1
            \<and> p2 \<noteq> []
            \<and> hd p2 = (case preloaded_resume_data self of
                         Some (r # rs) \<Rightarrow> 1 / 2
                       | _ \<Rightarrow> 0))
      \<and> (\<forall>ranked. fst (snd (worker_body host self disk role description)) = Inr ranked \<longrightarrow>
            p2 \<noteq> [] \<and> last p2 = 1
            \<and> fst (process_resumes_worker host self disk role description)
                = fst (worker_body host self disk role description)
                  @ [Complete ranked,
                     Progress 1 (if ranked \<noteq> [] then ''Analysis complete.''
                                 else ''No results found.'')])"
proof -
  note L = load_fractions_sorted [of host disk]
  note E = load_fractions_ends [of host disk]
  note G = gather_fractions [of host self]
  note H = gather_fractions_head [of host self]
  have ends: "\<forall>ranked. fst (snd (worker_body host self disk role description)) = Inr ranked \<longrightarrow>
            fst (process_resumes_worker host self disk role description)
                = fst (worker_body host self disk role description)
                  @ [Complete ranked,
                     Progress 1 (if ranked \<noteq> [] then ''Analysis complete.''
                                 else ''No results found.'')]"
    by (simp add: worker_trace update_results_display_def update_progress_def)
  show ?thesis
  proof (cases rule: worker_body_cases [of host disk self role description])
    case (load_failed t1 e d)
    with L E ends show ?thesis
      by (intro exI [of _ "[]"]) simp
  next
    case (no_resumes t1 m d t2)
    with L E [of m] G H ends show ?thesis
      by (intro exI [of _ "fractions t2"]) auto
  next
    case (ranked t1 m d t2 rs t3 r)
    note R = rank_fractions_sorted [of host rs "full_job_desc role description" m]
    note F = rank_resumes_fractions [of host rs "full_job_desc role description" m]
    have s: "sorted (fractions t2 @ fractions t3)"
      using G R ranked(2,4) by (fastforce simp: sorted_append)
    have l: "fractions t2 @ fractions t3 \<noteq> [] \<and> last (fractions t2 @ fractions t3) = 1"
      if "r = Inr x" for x
      using F [of x] that ranked(4) by simp
    have b: "\<forall>v\<in>set (fractions t2 @ fractions t3). 0 \<le> v \<and> v \<le> 1"
      using G R ranked(2,4) by fastforce
    have h: "fractions t2 @ fractions t3 \<noteq> []
             \<and> hd (fractions t2 @ fractions t3)
                 = (case preloaded_resume_data self of Some (r # rs) \<Rightarrow> 1 / 2 | _ \<Rightarrow> 0)"
      using H ranked(2) by simp
    from ranked L E [of m] s l b h ends show ?thesis
      by (intro exI [of _ "fractions t2 @ fractions t3"]) auto
  qed
qed

theorem progress_two_sweeps_witness:
  "\<exists>p2. fractions (fst (worker_body sample_host folder_of_scan None ''Dev'' ''Python''))
           = fractions (fst (load_model sample_host None (Some update_progress))) @ p2
      \<and> last (fractions (fst (load_model sample_host None (Some update_progress)))) = 1
      \<and> sorted p2 \<and> p2 \<noteq> [] \<and> hd p2 = 0 \<and> last p2 = 1"
proof -
  have r: "\<exists>ranked. fst (snd (worker_body sample_host folder_of_scan None ''Dev'' ''Python'')) = Inr ranked"
    by (simp add: worker_body_def load_model_download
          gather_resumes_def folder_of_scan_def sample_host_def sample_model_def
          rank_resumes_def report_def ranking_progress_callback_def update_progress_def
          Let_def)
  have m: "fst (snd (load_model sample_host None (Some update_progress))) = Inr sample_model"
    by (simp add: load_model_download sample_host_def)
  have p: "preloaded_resume_data folder_of_scan = None"
    by (simp add: folder_of_scan_def)
  from progress_two_sweeps [of sample_host folder_of_scan None "''Dev''" "''Python''"]
  obtain p2 where
    a: "fractions (fst (worker_body sample_host folder_of_scan None ''Dev'' ''Python''))
          = fractions (fst (load_model sample_host None (Some update_progress))) @ p2"
    and b: "sorted p2"
    and c: "\<forall>m. fst (snd (load_model sample_host None (Some update_progress))) = Inr m \<longrightarrow>
            last (fractions (fst (load_model sample_host None (Some update_progress)))) = 1
            \<and> p2 \<noteq> []
            \<and> hd p2 = (case preloaded_resume_data folder_of_scan of
                         Some (r # rs) \<Rightarrow> 1 / 2
                       | _ \<Rightarrow> 0)"
    and d: "\<forall>ranked. fst (snd (worker_body sample_host folder_of_scan None ''Dev'' ''Python'')) = Inr ranked \<longrightarrow>
            p2 \<noteq> [] \<and> last p2 = 1" by blast
  from c m p have "last (fractions (fst (load_model sample_host None (Some update_progress)))) = 1"
    and "p2 \<noteq> []" and "hd p2 = 0" by simp_all
  moreover from d r have "last p2 = 1" by blast
  ultimately show ?thesis using a b by blast
qed

text \<open>
  The claim as stated fails: in a successful run the fractions go from \<open>1\<close>, the end of
  provisioning, back to \<open>0\<close>, the start of extraction.
\<close>

theorem progress_not_monotone:
  "\<not> sorted (fractions (fst (process_resumes_worker sample_host folder_of_scan None ''Dev'' ''Python'')))"
  by (simp add: process_resumes_worker_def worker_body_def load_model_download
        gather_resumes_def folder_of_scan_def sample_host_def sample_model_def
        rank_resumes_def report_def ranking_progress_callback_def update_progress_def
        update_results_display_def Let_def)

end
